theory Spec2Isabelle
  imports Main
begin

section \<open>JavaScript strings\<close>

text \<open>
  A string is the list of its code units. The model covers strings whose code units are
  below 256, which includes every Docker tag name (letters, digits, underscore, period,
  dash) and every semver range.
\<close>

definition is_digit :: "char \<Rightarrow> bool" where
  "is_digit c = (c \<in> set ''0123456789'')"

definition is_letter :: "char \<Rightarrow> bool" where
  "is_letter c = (c \<in> set ''abcdefghijklmnopqrstuvwxyzABCDEFGHIJKLMNOPQRSTUVWXYZ'')"

text \<open>White space and line terminators, as \<^verbatim>\<open>String.prototype.trim\<close> and the regular
  expression class \<^verbatim>\<open>\s\<close> read them: TAB, LF, VT, FF, CR, SP, NBSP.\<close>

definition is_space :: "char \<Rightarrow> bool" where
  "is_space c = (c \<in> set [CHR 0x09, CHR 0x0A, CHR 0x0B, CHR 0x0C, CHR 0x0D, CHR 0x20, CHR 0xA0])"

definition js_trim :: "string \<Rightarrow> string" where
  "js_trim s = rev (dropWhile is_space (rev (dropWhile is_space s)))"

text \<open>\<^verbatim>\<open>s.split(c)\<close> for a one-character separator: never the empty list.\<close>

fun split_char :: "char \<Rightarrow> string \<Rightarrow> string list" where
  "split_char c [] = [[]]"
| "split_char c (x # xs) =
     (if x = c then [] # split_char c xs
      else (case split_char c xs of
              [] \<Rightarrow> [[x]]
            | r # rs \<Rightarrow> (x # r) # rs))"

text \<open>\<^verbatim>\<open>xs.join(sep)\<close>.\<close>

fun js_join :: "string \<Rightarrow> string list \<Rightarrow> string" where
  "js_join sep [] = []"
| "js_join sep [x] = x"
| "js_join sep (x # y # ys) = x @ sep @ js_join sep (y # ys)"

section \<open>Anchored regular expressions\<close>

text \<open>
  The regular expressions of the program are anchored at both ends (\<^verbatim>\<open>^...$\<close>, no flags)
  and use only classes, concatenation, \<^verbatim>\<open>?\<close> and \<^verbatim>\<open>+\<close>. For such an expression
  \<^verbatim>\<open>re.test(s)\<close> is true exactly when the whole of \<open>s\<close> is in its language, which
  derivatives decide.
\<close>

datatype rx = Never | Eps | Cls "char list" | Cat rx rx | Or rx rx | Rep rx

fun nullable :: "rx \<Rightarrow> bool" where
  "nullable Never = False"
| "nullable Eps = True"
| "nullable (Cls cs) = False"
| "nullable (Cat r s) = (nullable r \<and> nullable s)"
| "nullable (Or r s) = (nullable r \<or> nullable s)"
| "nullable (Rep r) = True"

fun deriv :: "char \<Rightarrow> rx \<Rightarrow> rx" where
  "deriv c Never = Never"
| "deriv c Eps = Never"
| "deriv c (Cls cs) = (if c \<in> set cs then Eps else Never)"
| "deriv c (Cat r s) =
     (if nullable r then Or (Cat (deriv c r) s) (deriv c s) else Cat (deriv c r) s)"
| "deriv c (Or r s) = Or (deriv c r) (deriv c s)"
| "deriv c (Rep r) = Cat (deriv c r) (Rep r)"

definition rx_test :: "rx \<Rightarrow> string \<Rightarrow> bool" where
  "rx_test r s = nullable (foldl (\<lambda>r c. deriv c r) r s)"

definition rx_opt :: "rx \<Rightarrow> rx" where
  "rx_opt r = Or r Eps"

definition rx_plus :: "rx \<Rightarrow> rx" where
  "rx_plus r = Cat r (Rep r)"

definition rx_chr :: "char \<Rightarrow> rx" where
  "rx_chr c = Cls [c]"

text \<open>\<^verbatim>\<open>\d\<close> and \<^verbatim>\<open>[\w.]\<close>.\<close>

definition rx_d :: rx where
  "rx_d = Cls ''0123456789''"

definition rx_w_dot :: rx where
  "rx_w_dot = Cls ''abcdefghijklmnopqrstuvwxyzABCDEFGHIJKLMNOPQRSTUVWXYZ0123456789_.''"

section \<open>Docker registry: classifying tags\<close>

record DockerTag =
  name :: string
  lastUpdated :: "string option"

text \<open>\<^verbatim>\<open>/^v?\d+(\.\d+)?(\.\d+)?(-[\w.]+)?$/\<close>\<close>

definition semverRegex :: rx where
  "semverRegex =
     Cat (rx_opt (rx_chr CHR ''v''))
    (Cat (rx_plus rx_d)
    (Cat (rx_opt (Cat (rx_chr CHR ''.'') (rx_plus rx_d)))
    (Cat (rx_opt (Cat (rx_chr CHR ''.'') (rx_plus rx_d)))
         (rx_opt (Cat (rx_chr CHR ''-'') (rx_plus rx_w_dot))))))"

text \<open>The callback of the filter: \<^verbatim>\<open>tag.name.split('-')[0]\<close> is the part before the first
  dash; the pattern is tried on it and on the whole name.\<close>

definition isSemanticVersionTag :: "DockerTag \<Rightarrow> bool" where
  "isSemanticVersionTag tag =
     (let cleaned = (case split_char CHR ''-'' (DockerTag.name tag) of [] \<Rightarrow> [] | x # _ \<Rightarrow> x)
      in rx_test semverRegex cleaned \<or> rx_test semverRegex (DockerTag.name tag))"

definition filterSemanticVersionTags :: "DockerTag list \<Rightarrow> DockerTag list" where
  "filterSemanticVersionTags tags = filter isSemanticVersionTag tags"

section \<open>Version filter: pipe-delimited ranges\<close>

definition parsePipeDelimitedRange :: "string \<Rightarrow> string" where
  "parsePipeDelimitedRange rangeString =
     (if CHR ''|'' \<notin> set rangeString then rangeString
      else js_join '' || '' (map js_trim (split_char CHR ''|'' rangeString)))"

section \<open>The semver package\<close>

text \<open>
  The version filter calls \<^verbatim>\<open>semver.coerce\<close>, \<^verbatim>\<open>semver.valid\<close> and
  \<^verbatim>\<open>semver.satisfies\<close> of the semver package (version 7, default options), a dependency
  whose code is not part of the repository. This section models those three functions from
  the package: version parsing and ordering in full, ranges for the \<^verbatim>\<open>||\<close> structure and
  the caret operator on plain partial versions. Every other form of a range branch is left
  to a parameter (\<open>otherRange\<close> below), so that what is proved holds whatever the package
  does with it. Numeric identifiers are exact naturals; the package holds them as doubles,
  which is the same below \<open>2^53\<close>, and refuses larger version components.
\<close>

definition MAX_LENGTH :: nat where
  "MAX_LENGTH = 256"

definition MAX_SAFE_INTEGER :: nat where
  "MAX_SAFE_INTEGER = 9007199254740991"

definition MAX_SAFE_COMPONENT_LENGTH :: nat where
  "MAX_SAFE_COMPONENT_LENGTH = 16"

definition digit_val :: "char \<Rightarrow> nat" where
  "digit_val c = of_char c - 48"

definition nat_of_digits :: "string \<Rightarrow> nat" where
  "nat_of_digits ds = foldl (\<lambda>n c. 10 * n + digit_val c) 0 ds"

definition digit_char :: "nat \<Rightarrow> char" where
  "digit_char d = ''0123456789'' ! d"

text \<open>The decimal digits of a number, as \<^verbatim>\<open>String(n)\<close> writes them.\<close>

fun show_nat :: "nat \<Rightarrow> string" where
  "show_nat n =
     (if n < 10 then [digit_char n]
      else show_nat (n div 10) @ [digit_char (n mod 10)])"

declare show_nat.simps [simp del]

datatype ident = Num nat | Str string

record SemVer =
  major :: nat
  minor :: nat
  patch :: nat
  prerelease :: "ident list"

text \<open>\<^verbatim>\<open>0|[1-9]\d*\<close>, and the characters \<^verbatim>\<open>[a-zA-Z0-9-]\<close> of the other identifiers.\<close>

definition is_numeric_identifier :: "string \<Rightarrow> bool" where
  "is_numeric_identifier ds =
     (ds \<noteq> [] \<and> list_all is_digit ds \<and> (ds = ''0'' \<or> take 1 ds \<noteq> ''0''))"

definition is_letterdashnumber :: "char \<Rightarrow> bool" where
  "is_letterdashnumber c = (is_letter c \<or> is_digit c \<or> c = CHR ''-'')"

text \<open>A prerelease identifier is a numeric identifier or
  \<^verbatim>\<open>\d*[a-zA-Z-][a-zA-Z0-9-]*\<close>; a build identifier is \<^verbatim>\<open>[a-zA-Z0-9-]+\<close>.\<close>

definition is_prerelease_identifier :: "string \<Rightarrow> bool" where
  "is_prerelease_identifier s =
     (is_numeric_identifier s \<or>
      (s \<noteq> [] \<and> list_all is_letterdashnumber s \<and> \<not> list_all is_digit s))"

definition is_build_identifier :: "string \<Rightarrow> bool" where
  "is_build_identifier s = (s \<noteq> [] \<and> list_all is_letterdashnumber s)"

definition to_ident :: "string \<Rightarrow> ident" where
  "to_ident s = (if list_all is_digit s then Num (nat_of_digits s) else Str s)"

text \<open>The parts of \<^verbatim>\<open>v?MAIN(-PRERELEASE)?(\+BUILD)?\<close>: the main version holds neither
  \<open>+\<close> nor \<open>-\<close> and the prerelease no \<open>+\<close>, so the build starts at the first \<open>+\<close> and the
  prerelease at the first \<open>-\<close> before it.\<close>

definition parse_main :: "string \<Rightarrow> (nat \<times> nat \<times> nat) option" where
  "parse_main s =
     (case split_char CHR ''.'' s of
        [a, b, c] \<Rightarrow>
          if is_numeric_identifier a \<and> is_numeric_identifier b \<and> is_numeric_identifier c
             \<and> nat_of_digits a \<le> MAX_SAFE_INTEGER \<and> nat_of_digits b \<le> MAX_SAFE_INTEGER
             \<and> nat_of_digits c \<le> MAX_SAFE_INTEGER
          then Some (nat_of_digits a, nat_of_digits b, nat_of_digits c)
          else None
      | _ \<Rightarrow> None)"

definition parse_full :: "string \<Rightarrow> SemVer option" where
  "parse_full s =
     (let s1 = (case s of c # r \<Rightarrow> if c = CHR ''v'' then r else s | [] \<Rightarrow> s);
          before_build = takeWhile (\<lambda>c. c \<noteq> CHR ''+'') s1;
          build = dropWhile (\<lambda>c. c \<noteq> CHR ''+'') s1;
          main = takeWhile (\<lambda>c. c \<noteq> CHR ''-'') before_build;
          pre = dropWhile (\<lambda>c. c \<noteq> CHR ''-'') before_build
      in if build \<noteq> [] \<and> \<not> list_all is_build_identifier (split_char CHR ''.'' (tl build))
         then None
         else if pre \<noteq> [] \<and> \<not> list_all is_prerelease_identifier (split_char CHR ''.'' (tl pre))
         then None
         else (case parse_main main of
                 None \<Rightarrow> None
               | Some (a, b, c) \<Rightarrow>
                   Some \<lparr>major = a, minor = b, patch = c,
                         prerelease = (if pre = [] then []
                                       else map to_ident (split_char CHR ''.'' (tl pre)))\<rparr>))"

text \<open>\<^verbatim>\<open>new SemVer(version)\<close>; \<open>None\<close> is the TypeError it throws.\<close>

definition SemVer_new :: "string \<Rightarrow> SemVer option" where
  "SemVer_new version =
     (if length version > MAX_LENGTH then None else parse_full (js_trim version))"

definition show_ident :: "ident \<Rightarrow> string" where
  "show_ident i = (case i of Num n \<Rightarrow> show_nat n | Str s \<Rightarrow> s)"

text \<open>The \<^verbatim>\<open>version\<close> property: \<^verbatim>\<open>format()\<close>.\<close>

definition SemVer_version :: "SemVer \<Rightarrow> string" where
  "SemVer_version v =
     show_nat (major v) @ ''.'' @ show_nat (minor v) @ ''.'' @ show_nat (patch v) @
     (if prerelease v = [] then [] else ''-'' @ js_join ''.'' (map show_ident (prerelease v)))"

text \<open>\<^verbatim>\<open>semver.valid(version)\<close> is truthy exactly when the version parses.\<close>

definition semver_valid :: "string \<Rightarrow> bool" where
  "semver_valid version = (SemVer_new version \<noteq> None)"

subsection \<open>Ordering versions\<close>

text \<open>Strings compare by code unit, as \<^verbatim>\<open>a < b\<close> does on two strings.\<close>

fun js_str_less :: "string \<Rightarrow> string \<Rightarrow> bool" where
  "js_str_less [] [] = False"
| "js_str_less [] (y # ys) = True"
| "js_str_less (x # xs) [] = False"
| "js_str_less (x # xs) (y # ys) =
     (if x = y then js_str_less xs ys else (of_char x :: nat) < of_char y)"

fun compareIdentifiers :: "ident \<Rightarrow> ident \<Rightarrow> int" where
  "compareIdentifiers (Num a) (Num b) = (if a = b then 0 else if a < b then -1 else 1)"
| "compareIdentifiers (Num a) (Str b) = -1"
| "compareIdentifiers (Str a) (Num b) = 1"
| "compareIdentifiers (Str a) (Str b) = (if a = b then 0 else if js_str_less a b then -1 else 1)"

definition compareMain :: "SemVer \<Rightarrow> SemVer \<Rightarrow> int" where
  "compareMain a b =
     (if major a \<noteq> major b then (if major a < major b then -1 else 1)
      else if minor a \<noteq> minor b then (if minor a < minor b then -1 else 1)
      else if patch a \<noteq> patch b then (if patch a < patch b then -1 else 1)
      else 0)"

text \<open>The loop of \<^verbatim>\<open>comparePre\<close> over the two identifier lists.\<close>

fun comparePreLoop :: "ident list \<Rightarrow> ident list \<Rightarrow> int" where
  "comparePreLoop [] [] = 0"
| "comparePreLoop (a # as) [] = 1"
| "comparePreLoop [] (b # bs) = -1"
| "comparePreLoop (a # as) (b # bs) =
     (if a = b then comparePreLoop as bs else compareIdentifiers a b)"

definition comparePre :: "SemVer \<Rightarrow> SemVer \<Rightarrow> int" where
  "comparePre a b =
     (if prerelease a \<noteq> [] \<and> prerelease b = [] then -1
      else if prerelease a = [] \<and> prerelease b \<noteq> [] then 1
      else if prerelease a = [] \<and> prerelease b = [] then 0
      else comparePreLoop (prerelease a) (prerelease b))"

text \<open>\<^verbatim>\<open>compareMain(other) || comparePre(other)\<close>\<close>

definition compare :: "SemVer \<Rightarrow> SemVer \<Rightarrow> int" where
  "compare a b = (if compareMain a b \<noteq> 0 then compareMain a b else comparePre a b)"

subsection \<open>Comparators and ranges\<close>

datatype operator = OpLt | OpLe | OpGt | OpGe | OpEq

datatype comparator = ANY | Comparator operator SemVer

definition cmp :: "SemVer \<Rightarrow> operator \<Rightarrow> SemVer \<Rightarrow> bool" where
  "cmp a op b =
     (case op of
        OpLt \<Rightarrow> compare a b < 0
      | OpLe \<Rightarrow> compare a b \<le> 0
      | OpGt \<Rightarrow> compare a b > 0
      | OpGe \<Rightarrow> compare a b \<ge> 0
      | OpEq \<Rightarrow> compare a b = 0)"

definition Comparator_test :: "comparator \<Rightarrow> SemVer \<Rightarrow> bool" where
  "Comparator_test c version =
     (case c of ANY \<Rightarrow> True | Comparator op v \<Rightarrow> cmp version op v)"

text \<open>\<^verbatim>\<open>testSet\<close>: every comparator of the set holds, and a version with a prerelease
  passes only when some comparator names a prerelease of the same
  \<open>major.minor.patch\<close>.\<close>

definition allowsPrerelease :: "SemVer \<Rightarrow> comparator \<Rightarrow> bool" where
  "allowsPrerelease version c =
     (case c of
        ANY \<Rightarrow> False
      | Comparator op allowed \<Rightarrow>
          prerelease allowed \<noteq> [] \<and> major allowed = major version
          \<and> minor allowed = minor version \<and> patch allowed = patch version)"

definition testSet :: "comparator list \<Rightarrow> SemVer \<Rightarrow> bool" where
  "testSet cs version =
     (if \<not> list_all (\<lambda>c. Comparator_test c version) cs then False
      else if prerelease version \<noteq> [] then list_ex (allowsPrerelease version) cs
      else True)"

text \<open>What the program takes from outside: the clock value of a date string
  (\<^verbatim>\<open>new Date(s).getTime()\<close>, \<open>None\<close> for NaN), the comparator list the semver
  package builds for a range branch that is not a caret over a plain partial version
  (\<open>None\<close> when it throws), and what \<^verbatim>\<open>Array.prototype.sort\<close> makes of an array of 64
  elements or more (see the section on sorting).\<close>

record env =
  getTime :: "string \<Rightarrow> int option"
  otherRange :: "string \<Rightarrow> comparator list option"
  sortLong :: "(DockerTag \<Rightarrow> DockerTag \<Rightarrow> int) \<Rightarrow> DockerTag list \<Rightarrow> DockerTag list"

text \<open>A version to compare with, refused beyond \<open>MAX_SAFE_INTEGER\<close> as the \<^verbatim>\<open>SemVer\<close>
  constructor refuses it.\<close>

definition mkSemVer :: "nat \<Rightarrow> nat \<Rightarrow> nat \<Rightarrow> ident list \<Rightarrow> SemVer option" where
  "mkSemVer a b c pre =
     (if a \<le> MAX_SAFE_INTEGER \<and> b \<le> MAX_SAFE_INTEGER \<and> c \<le> MAX_SAFE_INTEGER
      then Some \<lparr>major = a, minor = b, patch = c, prerelease = pre\<rparr> else None)"

text \<open>\<^verbatim>\<open>isX\<close>: a missing component, \<open>x\<close>, \<open>X\<close> or \<open>*\<close>.\<close>

definition isX :: "string option \<Rightarrow> bool" where
  "isX i = (case i of None \<Rightarrow> True | Some s \<Rightarrow> s = [] \<or> s = ''x'' \<or> s = ''X'' \<or> s = ''*'')"

definition is_xrange_identifier :: "string \<Rightarrow> bool" where
  "is_xrange_identifier s = (is_numeric_identifier s \<or> s = ''x'' \<or> s = ''X'' \<or> s = ''*'')"

text \<open>The comparators \<open>>=lower <upper-0\<close>. The package drops \<open>>=0.0.0\<close>
  (\<^verbatim>\<open>replaceGTE0\<close>), and throws when a bound is not a version.\<close>

definition boundedSet :: "SemVer option \<Rightarrow> SemVer option \<Rightarrow> comparator list option" where
  "boundedSet lower upper =
     (case (lower, upper) of
        (Some lo, Some up) \<Rightarrow>
          Some ((if major lo = 0 \<and> minor lo = 0 \<and> patch lo = 0 then []
                 else [Comparator OpGe lo]) @ [Comparator OpLt up])
      | _ \<Rightarrow> None)"

text \<open>\<^verbatim>\<open>replaceCaret\<close> on the components \<open>M\<close>, \<open>m\<close>, \<open>p\<close> of a partial version without
  prerelease, followed by the construction of the comparators.\<close>

definition replaceCaret :: "string \<Rightarrow> string option \<Rightarrow> string option \<Rightarrow> comparator list option" where
  "replaceCaret M m p =
     (let nM = nat_of_digits M; nm = nat_of_digits (case m of None \<Rightarrow> [] | Some s \<Rightarrow> s);
          np = nat_of_digits (case p of None \<Rightarrow> [] | Some s \<Rightarrow> s)
      in if isX (Some M) then Some [ANY]
         else if isX m then
           boundedSet (mkSemVer nM 0 0 []) (mkSemVer (nM + 1) 0 0 [Num 0])
         else if isX p then
           (if M = ''0''
            then boundedSet (mkSemVer nM nm 0 []) (mkSemVer nM (nm + 1) 0 [Num 0])
            else boundedSet (mkSemVer nM nm 0 []) (mkSemVer (nM + 1) 0 0 [Num 0]))
         else
           (if M = ''0''
            then (if m = Some ''0''
                  then boundedSet (mkSemVer nM nm np []) (mkSemVer nM nm (np + 1) [Num 0])
                  else boundedSet (mkSemVer nM nm np []) (mkSemVer nM (nm + 1) 0 [Num 0]))
            else boundedSet (mkSemVer nM nm np []) (mkSemVer (nM + 1) 0 0 [Num 0])))"

text \<open>A range branch of the form \<open>^M\<close>, \<open>^M.m\<close> or \<open>^M.m.p\<close>, each component a numeric
  identifier, \<open>x\<close>, \<open>X\<close> or \<open>*\<close>. On such a branch the other rewriting steps of the
  package (hyphen ranges, trimming, tildes, x-ranges, stars) change nothing.\<close>

definition caretPartial :: "string \<Rightarrow> (string \<times> string option \<times> string option) option" where
  "caretPartial branch =
     (case branch of
        [] \<Rightarrow> None
      | c # rest \<Rightarrow>
          if c \<noteq> CHR ''^'' then None
          else (case split_char CHR ''.'' rest of
                  [M] \<Rightarrow> if is_xrange_identifier M then Some (M, None, None) else None
                | [M, m] \<Rightarrow>
                    if is_xrange_identifier M \<and> is_xrange_identifier m
                    then Some (M, Some m, None) else None
                | [M, m, p] \<Rightarrow>
                    if is_xrange_identifier M \<and> is_xrange_identifier m \<and> is_xrange_identifier p
                    then Some (M, Some m, Some p) else None
                | _ \<Rightarrow> None))"

text \<open>\<^verbatim>\<open>parseRange\<close>: the comparators of one branch; \<open>None\<close> is the TypeError.\<close>

definition parseRange :: "env \<Rightarrow> string \<Rightarrow> comparator list option" where
  "parseRange E branch =
     (case caretPartial branch of
        Some (M, m, p) \<Rightarrow> replaceCaret M m p
      | None \<Rightarrow> otherRange E branch)"

text \<open>\<^verbatim>\<open>replace(/\s+/g, ' ')\<close>; the flag says that the character before was white space.\<close>

fun collapse_spaces :: "bool \<Rightarrow> string \<Rightarrow> string" where
  "collapse_spaces prev [] = []"
| "collapse_spaces prev (c # cs) =
     (if is_space c then (if prev then collapse_spaces True cs
                          else CHR 0x20 # collapse_spaces True cs)
      else c # collapse_spaces False cs)"

text \<open>\<^verbatim>\<open>raw.split('||')\<close>\<close>

fun split_oror :: "string \<Rightarrow> string list" where
  "split_oror [] = [[]]"
| "split_oror [x] = [[x]]"
| "split_oror (x # y # zs) =
     (if x = CHR ''|'' \<and> y = CHR ''|'' then [] # split_oror zs
      else (case split_oror (y # zs) of
              [] \<Rightarrow> [[x]]
            | r # rs \<Rightarrow> (x # r) # rs))"

definition isNullSet :: "comparator \<Rightarrow> bool" where
  "isNullSet c = (c = Comparator OpLt \<lparr>major = 0, minor = 0, patch = 0, prerelease = [Num 0]\<rparr>)"

definition isAny :: "comparator \<Rightarrow> bool" where
  "isAny c = (c = ANY)"

text \<open>With more than one branch: null sets are thrown out (the first is kept when all are
  null), and if a branch is \<open>*\<close> alone the range is that branch.\<close>

definition simplifySets :: "comparator list list \<Rightarrow> comparator list list" where
  "simplifySets sets =
     (case sets of
        first # _ # _ \<Rightarrow>
          (let kept = filter (\<lambda>c. \<not> (case c of [] \<Rightarrow> False | c0 # _ \<Rightarrow> isNullSet c0)) sets
           in if kept = [] then [first]
              else if length kept > 1
              then (case find (\<lambda>c. length c = 1 \<and> list_all isAny c) kept of
                      Some c \<Rightarrow> [c]
                    | None \<Rightarrow> kept)
              else kept)
      | _ \<Rightarrow> sets)"

text \<open>\<^verbatim>\<open>new Range(range)\<close>: the comparator sets of the branches between \<open>||\<close>;
  \<open>None\<close> is the TypeError.\<close>

definition Range_new :: "env \<Rightarrow> string \<Rightarrow> comparator list list option" where
  "Range_new E rangeStr =
     (let raw = collapse_spaces False (js_trim rangeStr)
      in case those (map (\<lambda>r. parseRange E (js_trim r)) (split_oror raw)) of
           None \<Rightarrow> None
         | Some parsed \<Rightarrow>
             (let sets = filter (\<lambda>c. c \<noteq> []) parsed
              in if sets = [] then None else Some (simplifySets sets)))"

text \<open>\<^verbatim>\<open>semver.satisfies(version, range)\<close>: false when the range or the version does not
  parse; it never throws on strings.\<close>

definition semver_satisfies :: "env \<Rightarrow> string \<Rightarrow> string \<Rightarrow> bool" where
  "semver_satisfies E version rangeStr =
     (case Range_new E rangeStr of
        None \<Rightarrow> False
      | Some sets \<Rightarrow>
          (case SemVer_new version of
             None \<Rightarrow> False
           | Some v \<Rightarrow> list_ex (\<lambda>cs. testSet cs v) sets))"

subsection \<open>Coercion\<close>

text \<open>
  \<^verbatim>\<open>semver.coerce\<close> takes the leftmost match of
  \<^verbatim>\<open>(^|[^\d])(\d{1,16})(?:\.(\d{1,16}))?(?:\.(\d{1,16}))?(?:$|[^\d])\<close>
  and parses \<open>major.minor.patch\<close>, a missing group read as \<open>0\<close>. The match starts at
  the first run of digits that is at most 16 long; a following \<open>.\<close> with a run of at most
  16 digits gives the minor, and the same again the patch. Whatever follows is dropped.
\<close>

definition dotDigits :: "string \<Rightarrow> (string \<times> string) option" where
  "dotDigits r =
     (case r of
        [] \<Rightarrow> None
      | c # r' \<Rightarrow>
          if c = CHR ''.'' \<and> takeWhile is_digit r' \<noteq> []
             \<and> length (takeWhile is_digit r') \<le> MAX_SAFE_COMPONENT_LENGTH
          then Some (takeWhile is_digit r', dropWhile is_digit r')
          else None)"

definition coerceAt :: "string \<Rightarrow> (string \<times> string option \<times> string option) option" where
  "coerceAt s =
     (let M = takeWhile is_digit s
      in if M = [] \<or> length M > MAX_SAFE_COMPONENT_LENGTH then None
         else (case dotDigits (dropWhile is_digit s) of
                 None \<Rightarrow> Some (M, None, None)
               | Some (m, r2) \<Rightarrow>
                   (case dotDigits r2 of
                      None \<Rightarrow> Some (M, Some m, None)
                    | Some (p, r3) \<Rightarrow> Some (M, Some m, Some p))))"

text \<open>The flag says that the position is the start of the string or follows a character
  that is not a digit.\<close>

fun coerceFind :: "bool \<Rightarrow> string \<Rightarrow> (string \<times> string option \<times> string option) option" where
  "coerceFind boundary [] = None"
| "coerceFind boundary (c # cs) =
     (if is_digit c
      then (if boundary
            then (case coerceAt (c # cs) of
                    Some r \<Rightarrow> Some r
                  | None \<Rightarrow> coerceFind False cs)
            else coerceFind False cs)
      else coerceFind True cs)"

definition semver_coerce :: "string \<Rightarrow> SemVer option" where
  "semver_coerce version =
     (case coerceFind True version of
        None \<Rightarrow> None
      | Some (M, m, p) \<Rightarrow>
          SemVer_new (M @ ''.'' @ (case m of None \<Rightarrow> ''0'' | Some x \<Rightarrow> x)
                        @ ''.'' @ (case p of None \<Rightarrow> ''0'' | Some x \<Rightarrow> x)))"

section \<open>Sorting by last update\<close>

text \<open>
  \<^verbatim>\<open>Array.prototype.sort\<close> with a comparison function, as the engine of the action's
  runtime (V8, in Node) does it: TimSort. The comparison function's result is a number,
  NaN read as \<open>0\<close>, and the only test made of it is whether it is negative. An array of
  fewer than two elements is returned as it is. An array of fewer than 64 elements is one
  run: \<^verbatim>\<open>CountAndMakeRun\<close> finds the run the array starts with, ascending or strictly
  descending, and reverses a descending one; \<^verbatim>\<open>BinaryInsertionSort\<close> then moves each
  further element into the sorted part that precedes it, to the position a binary search
  finds. A longer array is cut into several runs, which are merged; that part of the
  engine is not modelled, and its result is the parameter \<open>sortLong\<close>.
\<close>

text \<open>The loop of \<^verbatim>\<open>CountAndMakeRun\<close>: how many further elements continue the run.\<close>

fun countRun :: "('a \<Rightarrow> 'a \<Rightarrow> int) \<Rightarrow> bool \<Rightarrow> 'a \<Rightarrow> 'a list \<Rightarrow> nat" where
  "countRun c isDescending previousElement [] = 0"
| "countRun c isDescending previousElement (currentElement # rest) =
     (let order = c currentElement previousElement
      in if (if isDescending then order \<ge> 0 else order < 0) then 0
         else Suc (countRun c isDescending currentElement rest))"

text \<open>The length of the run and the array with the run made ascending.\<close>

definition countAndMakeRun :: "('a \<Rightarrow> 'a \<Rightarrow> int) \<Rightarrow> 'a list \<Rightarrow> nat \<times> 'a list" where
  "countAndMakeRun c a =
     (case a of
        elementHigh # elementLow # rest \<Rightarrow>
          (let isDescending = c elementLow elementHigh < 0;
               runLength = 2 + countRun c isDescending elementLow rest
           in (runLength,
               if isDescending then rev (take runLength a) @ drop runLength a else a))
      | _ \<Rightarrow> (length a, a))"

text \<open>The search for the pivot's insertion point between \<open>left\<close> and \<open>right\<close>.\<close>

function binarySearch :: "('a \<Rightarrow> 'a \<Rightarrow> int) \<Rightarrow> 'a list \<Rightarrow> 'a \<Rightarrow> nat \<Rightarrow> nat \<Rightarrow> nat" where
  "binarySearch c a pivot left right =
     (if left < right
      then (let mid = left + (right - left) div 2
            in if c pivot (a ! mid) < 0 then binarySearch c a pivot left mid
               else binarySearch c a pivot (mid + 1) right)
      else left)"
  by pat_completeness auto
termination
  by (relation "measure (\<lambda>(c, a, pivot, left, right). right - left)") auto

declare binarySearch.simps [simp del]

text \<open>The element at \<open>start\<close> moved to \<open>left\<close>, the elements between slid one place up.\<close>

definition slideIn :: "'a list \<Rightarrow> nat \<Rightarrow> nat \<Rightarrow> 'a list" where
  "slideIn a left start =
     take left a @ [a ! start] @ drop left (take start a) @ drop (Suc start) a"

text \<open>\<^verbatim>\<open>BinaryInsertionSort\<close> from the lower bound \<open>0\<close>: the elements before \<open>start\<close> are
  the sorted part.\<close>

function binaryInsertionSort :: "('a \<Rightarrow> 'a \<Rightarrow> int) \<Rightarrow> 'a list \<Rightarrow> nat \<Rightarrow> nat \<Rightarrow> 'a list" where
  "binaryInsertionSort c a start high =
     (if start < high
      then binaryInsertionSort c (slideIn a (binarySearch c a (a ! start) 0 start) start)
             (Suc start) high
      else a)"
  by pat_completeness auto
termination
  by (relation "measure (\<lambda>(c, a, start, high). high - start)") auto

declare binaryInsertionSort.simps [simp del]

text \<open>The sort of an array that is a single run (the minimal run length of an array
  shorter than 64 is its length).\<close>

definition sortShort :: "('a \<Rightarrow> 'a \<Rightarrow> int) \<Rightarrow> 'a list \<Rightarrow> 'a list" where
  "sortShort c xs =
     (case countAndMakeRun c xs of
        (runLength, a) \<Rightarrow>
          if runLength < length xs then binaryInsertionSort c a runLength (length xs) else a)"

definition js_sort ::
  "env \<Rightarrow> (DockerTag \<Rightarrow> DockerTag \<Rightarrow> int) \<Rightarrow> DockerTag list \<Rightarrow> DockerTag list" where
  "js_sort E c xs =
     (if length xs < 2 then xs
      else if length xs < 64 then sortShort c xs
      else sortLong E c xs)"

text \<open>
  What ECMAScript asks of \<^verbatim>\<open>Array.prototype.sort\<close>, and TimSort gives, stated for the
  part left to the environment: the result is a permutation of the array, and when the
  comparison function orders the elements as an integer key does (it is then a consistent
  comparison function) the result is the stable sort by that key. The two definitions
  are terms of the statements about sorting, not parts of the program.
\<close>

definition keyed :: "('a \<Rightarrow> 'a \<Rightarrow> int) \<Rightarrow> ('a \<Rightarrow> int) \<Rightarrow> 'a list \<Rightarrow> bool" where
  "keyed c f xs =
     (\<forall>a\<in>set xs. \<forall>b\<in>set xs. (c a b < 0) = (f a < f b) \<and> (0 < c a b) = (f b < f a))"

definition conformingSort :: "env \<Rightarrow> bool" where
  "conformingSort E =
     (\<forall>c xs. (\<forall>x. count_list (sortLong E c xs) x = count_list xs x)
             \<and> (\<forall>f. keyed c f xs \<longrightarrow> sortLong E c xs = sort_key f xs))"

text \<open>\<^verbatim>\<open>!tag.lastUpdated\<close>: the field is absent or the empty string.\<close>

definition noLastUpdated :: "DockerTag \<Rightarrow> bool" where
  "noLastUpdated tag = (case lastUpdated tag of None \<Rightarrow> True | Some s \<Rightarrow> s = [])"

text \<open>The comparison function of both sorts. A difference that is NaN (a date that
  does not parse) counts as \<open>0\<close> in a sort.\<close>

definition compareLastUpdated :: "env \<Rightarrow> DockerTag \<Rightarrow> DockerTag \<Rightarrow> int" where
  "compareLastUpdated E a b =
     (if noLastUpdated a \<or> noLastUpdated b then 0
      else (case (lastUpdated b, lastUpdated a) of
              (Some sb, Some sa) \<Rightarrow>
                (case (getTime E sb, getTime E sa) of
                   (Some tb, Some ta) \<Rightarrow> tb - ta
                 | _ \<Rightarrow> 0)
            | _ \<Rightarrow> 0))"

section \<open>Version filter\<close>

datatype error =
    InvalidStrategy string
  | SemverRangeRequired
  | MaxVersionsNotPositive
  | FailedToLoadConfiguration error
  | NoTagsFound string
  | NoTagsAvailable
  | NoVersionsMatched

definition getLatestVersions :: "env \<Rightarrow> DockerTag list \<Rightarrow> nat \<Rightarrow> DockerTag list" where
  "getLatestVersions E tags count = take count (js_sort E (compareLastUpdated E) tags)"

text \<open>\<^verbatim>\<open>version.startsWith('v') ? version.slice(1) : version\<close>\<close>

definition stripLeadingV :: "string \<Rightarrow> string" where
  "stripLeadingV version =
     (case version of [] \<Rightarrow> version
      | c # r \<Rightarrow> if c = CHR ''v'' then r else version)"

definition cleanVersionString :: "string \<Rightarrow> string" where
  "cleanVersionString version =
     (let cleaned = stripLeadingV version
      in case semver_coerce cleaned of
           Some coerced \<Rightarrow> SemVer_version coerced
         | None \<Rightarrow> cleaned)"

text \<open>The callback of the filter. \<^verbatim>\<open>semver.satisfies\<close> does not throw on strings, so
  the \<^verbatim>\<open>catch\<close> around it has nothing to catch.\<close>

definition matchesSemverRange :: "env \<Rightarrow> string \<Rightarrow> DockerTag \<Rightarrow> bool" where
  "matchesSemverRange E rangeStr tag =
     (let version = cleanVersionString (DockerTag.name tag)
      in if \<not> semver_valid version then False
         else semver_satisfies E version rangeStr)"

definition filterBySemverRange :: "env \<Rightarrow> DockerTag list \<Rightarrow> string \<Rightarrow> DockerTag list" where
  "filterBySemverRange E tags rangeStr = filter (matchesSemverRange E rangeStr) tags"

text \<open>\<^verbatim>\<open>maxVersions\<close> is a whole number when present (a YAML integer).\<close>

definition applyMaxVersions :: "int option \<Rightarrow> DockerTag list \<Rightarrow> DockerTag list" where
  "applyMaxVersions maxVersions filtered =
     (case maxVersions of
        None \<Rightarrow> filtered
      | Some n \<Rightarrow> if n > 0 then take (nat n) filtered else filtered)"

definition filterVersions ::
  "env \<Rightarrow> DockerTag list \<Rightarrow> string \<Rightarrow> string option \<Rightarrow> int option \<Rightarrow> error + string list" where
  "filterVersions E tags strategy semverRange maxVersions =
     (case (if strategy = ''latest'' then Inr (getLatestVersions E tags 1)
            else if strategy = ''all'' then Inr tags
            else if strategy = ''semver'' then
              (case semverRange of
                 None \<Rightarrow> Inl SemverRangeRequired
               | Some r \<Rightarrow> if r = [] then Inl SemverRangeRequired
                           else Inr (filterBySemverRange E tags r))
            else Inl (InvalidStrategy strategy)) of
        Inl e \<Rightarrow> Inl e
      | Inr filtered \<Rightarrow> Inr (map DockerTag.name (applyMaxVersions maxVersions filtered)))"

section \<open>Docker registry: the latest tag\<close>

definition getLatestTag :: "env \<Rightarrow> DockerTag list \<Rightarrow> DockerTag option" where
  "getLatestTag E tags =
     (if tags = [] then None
      else (case js_sort E (compareLastUpdated E) tags of
              [] \<Rightarrow> None
            | t # _ \<Rightarrow> Some t))"

section \<open>Configuration\<close>

record BuildConfig =
  name :: "string option"
  dockerfilePath :: "string option"
  contextPath :: "string option"
  buildArgs :: "(string \<rightharpoonup> string) option"
  tags :: "string list option"

record BaseImageVersionerConfig =
  strategy :: "string option"
  semverRange :: "string option"
  maxVersions :: "int option"
  builds :: "BuildConfig list option"

text \<open>\<^verbatim>\<open>s || d\<close> on an optional string: the default when the string is absent or
  empty.\<close>

definition orDefault :: "string option \<Rightarrow> string \<Rightarrow> string" where
  "orDefault s d = (case s of None \<Rightarrow> d | Some x \<Rightarrow> if x = [] then d else x)"

definition getDefaultConfig :: BaseImageVersionerConfig where
  "getDefaultConfig =
     \<lparr>strategy = Some ''latest'', semverRange = None, maxVersions = None,
      builds = Some [\<lparr>BuildConfig.name = Some ''default'',
                      BuildConfig.dockerfilePath = Some ''Dockerfile'',
                      BuildConfig.contextPath = Some ''.'',
                      BuildConfig.buildArgs = Some Map.empty,
                      BuildConfig.tags = Some [''{version}'', ''latest'']\<rparr>]\<rparr>"

text \<open>The callback of \<^verbatim>\<open>normalized.builds.map\<close>.\<close>

definition normalizeBuild :: "nat \<Rightarrow> BuildConfig \<Rightarrow> BuildConfig" where
  "normalizeBuild index build =
     \<lparr>BuildConfig.name = Some (orDefault (BuildConfig.name build) (''build-'' @ show_nat index)),
      BuildConfig.dockerfilePath = Some (orDefault (BuildConfig.dockerfilePath build) ''Dockerfile''),
      BuildConfig.contextPath = Some (orDefault (BuildConfig.contextPath build) ''.''),
      BuildConfig.buildArgs =
        Some (case BuildConfig.buildArgs build of None \<Rightarrow> Map.empty | Some m \<Rightarrow> m),
      BuildConfig.tags =
        Some (case BuildConfig.tags build of None \<Rightarrow> [''{version}''] | Some ts \<Rightarrow> ts)\<rparr>"

definition validateAndNormalizeConfig ::
  "BaseImageVersionerConfig \<Rightarrow> error + BaseImageVersionerConfig" where
  "validateAndNormalizeConfig config =
     (let strategy' = orDefault (strategy config) ''latest'';
          builds' = (case builds config of None \<Rightarrow> [] | Some bs \<Rightarrow> bs)
      in if strategy' \<notin> set [''latest'', ''all'', ''semver''] then Inl (InvalidStrategy strategy')
         else if strategy' = ''semver''
                 \<and> (case semverRange config of None \<Rightarrow> True | Some r \<Rightarrow> r = [])
         then Inl SemverRangeRequired
         else if (case maxVersions config of None \<Rightarrow> False | Some n \<Rightarrow> n < 1)
         then Inl MaxVersionsNotPositive
         else
           (let builds'' = (if builds' = []
                            then (case builds getDefaultConfig of None \<Rightarrow> [] | Some bs \<Rightarrow> bs)
                            else builds')
            in Inr \<lparr>strategy = Some strategy', semverRange = semverRange config,
                    maxVersions = maxVersions config,
                    builds = Some (map (\<lambda>(index, build). normalizeBuild index build)
                                       (enumerate 0 builds''))\<rparr>))"

text \<open>\<^verbatim>\<open>loadConfig\<close> once the file system has been asked: \<open>None\<close> when there is no file at
  the path, otherwise the parsed file. An error of the validation is wrapped.\<close>

definition loadConfig ::
  "BaseImageVersionerConfig option \<Rightarrow> error + BaseImageVersionerConfig" where
  "loadConfig configFile =
     (case configFile of
        None \<Rightarrow> Inr getDefaultConfig
      | Some config \<Rightarrow>
          (case validateAndNormalizeConfig config of
             Inl e \<Rightarrow> Inl (FailedToLoadConfiguration e)
           | Inr normalized \<Rightarrow> Inr normalized))"

definition mergeConfigWithVersionRange ::
  "BaseImageVersionerConfig \<Rightarrow> string \<Rightarrow> BaseImageVersionerConfig" where
  "mergeConfigWithVersionRange config versionRange =
     (if versionRange = [] then config
      else if versionRange = ''latest''
      then config\<lparr>strategy := Some ''latest'', semverRange := None\<rparr>
      else if versionRange = ''all''
      then config\<lparr>strategy := Some ''all'', semverRange := None\<rparr>
      else config\<lparr>strategy := Some ''semver'', semverRange := Some versionRange\<rparr>)"

section \<open>Building the matrix\<close>

record MatrixEntry =
  version :: string
  name :: string
  dockerfilePath :: string
  contextPath :: string
  buildArgs :: "string \<rightharpoonup> string"
  tags :: "string list"

text \<open>\<^verbatim>\<open>s.indexOf(pat)\<close>\<close>

fun indexOf :: "string \<Rightarrow> string \<Rightarrow> nat option" where
  "indexOf pat [] = (if pat = [] then Some 0 else None)"
| "indexOf pat (c # cs) =
     (if take (length pat) (c # cs) = pat then Some 0
      else map_option Suc (indexOf pat cs))"

text \<open>\<^verbatim>\<open>GetSubstitution\<close> for a string pattern (no capture groups): in the replacement
  text \<^verbatim>\<open>$$\<close> stands for a dollar sign, \<^verbatim>\<open>$&\<close> for the matched text, a dollar sign
  with a backquote for the text before the match, with a quote for the text after it; every
  other dollar sign stands for itself.\<close>

fun getSubstitution :: "string \<Rightarrow> string \<Rightarrow> string \<Rightarrow> string \<Rightarrow> string" where
  "getSubstitution matched before after [] = []"
| "getSubstitution matched before after [c] = [c]"
| "getSubstitution matched before after (c # d # r) =
     (if c \<noteq> CHR ''$'' then c # getSubstitution matched before after (d # r)
      else if d = CHR ''$'' then CHR ''$'' # getSubstitution matched before after r
      else if d = CHR ''&'' then matched @ getSubstitution matched before after r
      else if d = CHR 0x60 then before @ getSubstitution matched before after r
      else if d = CHR 0x27 then after @ getSubstitution matched before after r
      else c # getSubstitution matched before after (d # r))"

text \<open>\<^verbatim>\<open>s.replace(pat, replacement)\<close> with a string pattern: the first occurrence
  only.\<close>

definition js_replace :: "string \<Rightarrow> string \<Rightarrow> string \<Rightarrow> string" where
  "js_replace pat replacement s =
     (case indexOf pat s of
        None \<Rightarrow> s
      | Some i \<Rightarrow>
          take i s
          @ getSubstitution pat (take i s) (drop (i + length pat) s) replacement
          @ drop (i + length pat) s)"

text \<open>The object literal in the inner loop of \<^verbatim>\<open>buildMatrix\<close>. The spread of the build's
  arguments comes last, so its keys override the two before it.\<close>

definition matrixEntry :: "string \<Rightarrow> BuildConfig \<Rightarrow> string \<Rightarrow> MatrixEntry" where
  "matrixEntry ver build baseImage =
     \<lparr>version = ver,
      name = orDefault (BuildConfig.name build) ''default'',
      dockerfilePath = orDefault (BuildConfig.dockerfilePath build) ''Dockerfile'',
      contextPath = orDefault (BuildConfig.contextPath build) ''.'',
      buildArgs =
        [''BASE_IMAGE_VERSION'' \<mapsto> ver, ''BASE_IMAGE'' \<mapsto> baseImage]
        ++ (case BuildConfig.buildArgs build of None \<Rightarrow> Map.empty | Some m \<Rightarrow> m),
      tags = map (\<lambda>tag. js_replace ''{version}'' ver tag)
                 (case BuildConfig.tags build of None \<Rightarrow> [''{version}''] | Some ts \<Rightarrow> ts)\<rparr>"

text \<open>The two loops, each \<^verbatim>\<open>matrix.push(entry)\<close> appending to the matrix so far.\<close>

definition buildMatrix ::
  "string list \<Rightarrow> BaseImageVersionerConfig \<Rightarrow> string \<Rightarrow> MatrixEntry list" where
  "buildMatrix versions config baseImage =
     foldl (\<lambda>matrix ver.
              foldl (\<lambda>matrix build. matrix @ [matrixEntry ver build baseImage])
                    matrix
                    (case builds config of None \<Rightarrow> [] | Some bs \<Rightarrow> bs))
           [] versions"

section \<open>The action\<close>

text \<open>
  \<^verbatim>\<open>run\<close> once its inputs have been read, the configuration file looked up and the tags
  fetched. \<open>Inr matrix\<close> is the output \<^verbatim>\<open>{ include: matrix }\<close>; \<open>Inl e\<close> is the error handed
  to \<^verbatim>\<open>core.setFailed\<close>.
\<close>

definition run ::
  "env \<Rightarrow> string \<Rightarrow> string \<Rightarrow> BaseImageVersionerConfig option \<Rightarrow> DockerTag list
     \<Rightarrow> error + MatrixEntry list" where
  "run E baseImage versionRangeInput configFile allTags =
     (case loadConfig configFile of
        Inl e \<Rightarrow> Inl e
      | Inr loaded \<Rightarrow>
          (let config = (if versionRangeInput \<noteq> []
                         then mergeConfigWithVersionRange loaded versionRangeInput
                         else loaded)
           in if allTags = [] then Inl (NoTagsFound baseImage)
              else
                (let semverTags = filterSemanticVersionTags allTags
                 in if semverTags = []
                    then (case getLatestTag E allTags of
                            None \<Rightarrow> Inl NoTagsAvailable
                          | Some latest \<Rightarrow>
                              Inr (buildMatrix [DockerTag.name latest] config baseImage))
                    else
                      (let semverRange' =
                             (case semverRange config of
                                None \<Rightarrow> None
                              | Some r \<Rightarrow>
                                  if strategy config = Some ''semver'' \<and> r \<noteq> []
                                  then Some (parsePipeDelimitedRange r) else Some r)
                       in case filterVersions E semverTags
                                 (case strategy config of None \<Rightarrow> ''undefined'' | Some s \<Rightarrow> s)
                                 semverRange' (maxVersions config) of
                            Inl e \<Rightarrow> Inl e
                          | Inr selectedVersions \<Rightarrow>
                              if selectedVersions = [] then Inl NoVersionsMatched
                              else Inr (buildMatrix selectedVersions config baseImage)))))"

section \<open>Time stamps\<close>

text \<open>The time stamp of a tag, for stating what the sort does: the clock value of
  \<^verbatim>\<open>lastUpdated\<close> when the field is there, not empty, and parses as a date.\<close>

definition timeOf :: "env \<Rightarrow> DockerTag \<Rightarrow> int option" where
  "timeOf E tag =
     (case lastUpdated tag of
        None \<Rightarrow> None
      | Some s \<Rightarrow> if s = [] then None else getTime E s)"

section \<open>The number in a tag name\<close>

text \<open>
  The terms in which normalization is described. A whole run is a run of one to sixteen
  digits with no digit before it and none after it; a dot run is a dot followed by a whole
  run; the minor and the patch that follow a major are the digits of the dot run after it
  and of the dot run after that, each \<open>0\<close> when there is no such dot run. A strict number is
  a numeric identifier that the semver package accepts as a version component. These are
  terms of the statement, not parts of the program: the program's own search is
  \<open>coerceFind\<close>, and the properties of normalization relate the two.
\<close>

definition wholeRun :: "string \<Rightarrow> string \<Rightarrow> string \<Rightarrow> bool" where
  "wholeRun before ds after =
     (ds \<noteq> [] \<and> list_all is_digit ds \<and> length ds \<le> MAX_SAFE_COMPONENT_LENGTH
      \<and> (before = [] \<or> \<not> is_digit (last before))
      \<and> (after = [] \<or> \<not> is_digit (hd after)))"

definition dotRun :: "string \<Rightarrow> string \<Rightarrow> string \<Rightarrow> bool" where
  "dotRun t ds after = (t = CHR ''.'' # ds @ after \<and> wholeRun ''.'' ds after)"

definition minorPatch :: "string \<Rightarrow> string \<Rightarrow> string \<Rightarrow> bool" where
  "minorPatch after m p =
     (((\<forall>ds t. \<not> dotRun after ds t) \<and> m = ''0'' \<and> p = ''0'')
      \<or> (\<exists>t1. dotRun after m t1
            \<and> (((\<forall>ds t. \<not> dotRun t1 ds t) \<and> p = ''0'') \<or> (\<exists>t2. dotRun t1 p t2))))"

definition strictNumber :: "string \<Rightarrow> bool" where
  "strictNumber ds = (is_numeric_identifier ds \<and> nat_of_digits ds \<le> MAX_SAFE_INTEGER)"

section \<open>Example inputs\<close>

text \<open>An environment for the examples: the clock values of the dates they use, as
  \<^verbatim>\<open>new Date(s).getTime()\<close> gives them, no range branch beyond the caret ones, and an
  engine that sorts a long array the way it sorts a short one.\<close>

definition exampleEnv :: env where
  "exampleEnv =
     \<lparr>getTime = (\<lambda>s. if s = ''2024-01-01'' then Some 1704067200000
                     else if s = ''2024-06-01'' then Some 1717200000000
                     else if s = ''2023-01-01'' then Some 1672531200000
                     else None),
      otherRange = (\<lambda>r. None),
      sortLong = sortShort\<rparr>"

text \<open>The tags of the fallback scenario, and a tag without a time stamp.\<close>

definition rcTag :: DockerTag where
  "rcTag = \<lparr>DockerTag.name = ''rc'', lastUpdated = Some ''2024-01-01''\<rparr>"

definition stableTag :: DockerTag where
  "stableTag = \<lparr>DockerTag.name = ''stable'', lastUpdated = Some ''2024-06-01''\<rparr>"

definition betaTag :: DockerTag where
  "betaTag = \<lparr>DockerTag.name = ''beta'', lastUpdated = None\<rparr>"

text \<open>Four version tags, the third without a time stamp.\<close>

definition tag100 :: DockerTag where
  "tag100 = \<lparr>DockerTag.name = ''1.0.0'', lastUpdated = Some ''2023-01-01''\<rparr>"

definition tag110 :: DockerTag where
  "tag110 = \<lparr>DockerTag.name = ''1.1.0'', lastUpdated = Some ''2024-01-01''\<rparr>"

definition tag120 :: DockerTag where
  "tag120 = \<lparr>DockerTag.name = ''1.2.0'', lastUpdated = None\<rparr>"

definition tag130 :: DockerTag where
  "tag130 = \<lparr>DockerTag.name = ''1.3.0'', lastUpdated = Some ''2024-06-01''\<rparr>"

section \<open>Properties: pipe-delimited ranges\<close>

lemma split_char_not_Nil: "split_char c s \<noteq> []"
  by (induction s) (auto split: list.splits)

lemma length_split_char: "length (split_char c s) = Suc (count_list s c)"
proof (induction s)
  case Nil
  show ?case by simp
next
  case (Cons x xs)
  obtain r rs where "split_char c xs = r # rs"
    using split_char_not_Nil [of c xs] by (cases "split_char c xs") auto
  with Cons show ?case by auto
qed

text \<open>
  C10. \<^verbatim>\<open>parsePipeDelimitedRange\<close> takes every single bar for a separator: a range with
  \<open>n\<close> bars has \<open>n + 1\<close> segments, each trimmed and the segments joined by \<open>||\<close> between
  spaces. So \<open>^1||^2\<close>, which already uses the OR operator of semver, has an empty middle
  segment and becomes \<open>^1 ||  || ^2\<close>, which semver reads as three branches, the middle
  one empty. A range without a bar is returned as it is.
\<close>

theorem pipe_every_bar_separates:
  "parsePipeDelimitedRange ''^1||^2'' = ''^1 ||  || ^2''
   \<and> map js_trim (split_oror (collapse_spaces False (js_trim ''^1 ||  || ^2'')))
       = [''^1'', [], ''^2'']
   \<and> (CHR ''|'' \<notin> set r \<longrightarrow> parsePipeDelimitedRange r = r)
   \<and> (CHR ''|'' \<in> set r \<longrightarrow>
        parsePipeDelimitedRange r = js_join '' || '' (map js_trim (split_char CHR ''|'' r)))
   \<and> length (split_char CHR ''|'' r) = Suc (count_list r CHR ''|'')"
proof -
  have "parsePipeDelimitedRange ''^1||^2'' = ''^1 ||  || ^2''"
    by (simp add: parsePipeDelimitedRange_def js_trim_def is_space_def)
  moreover have "map js_trim (split_oror (collapse_spaces False (js_trim ''^1 ||  || ^2'')))
       = [''^1'', [], ''^2'']"
    by (simp add: js_trim_def is_space_def)
  ultimately show ?thesis
    by (simp add: parsePipeDelimitedRange_def length_split_char)
qed

theorem pipe_every_bar_separates_witness:
  "CHR ''|'' \<notin> set ''^1'' \<and> parsePipeDelimitedRange ''^1'' = ''^1''
   \<and> CHR ''|'' \<in> set ''^1|^2'' \<and> parsePipeDelimitedRange ''^1|^2'' = ''^1 || ^2''"
  using pipe_every_bar_separates [of "''^1''"] pipe_every_bar_separates [of "''^1|^2''"]
  by (simp add: js_trim_def is_space_def)

section \<open>Properties: the classifier\<close>

lemma split_char_first:
  "(case split_char c s of [] \<Rightarrow> [] | x # _ \<Rightarrow> x) = takeWhile (\<lambda>x. x \<noteq> c) s"
  by (induction s) (auto split: list.splits)

text \<open>
  C8. The classifier tries the pattern on the part of the name before its first hyphen and
  on the whole name, and keeps the tag when either matches. Of the tag names \<open>1\<close>,
  \<open>1.2\<close>, \<open>1.2.3\<close>, \<open>v1.2.3\<close>, \<open>1.2.3-alpine\<close>, \<open>latest\<close>, \<open>alpine\<close> and \<open>slim\<close> it keeps
  the first five and drops the last three, whatever their time stamps.
\<close>

theorem classifier_examples:
  "isSemanticVersionTag tag =
     (rx_test semverRegex (takeWhile (\<lambda>c. c \<noteq> CHR ''-'') (DockerTag.name tag))
      \<or> rx_test semverRegex (DockerTag.name tag))
   \<and> filterSemanticVersionTags
     (map (\<lambda>n. \<lparr>DockerTag.name = n, lastUpdated = u\<rparr>)
        [''1'', ''1.2'', ''1.2.3'', ''v1.2.3'', ''1.2.3-alpine'', ''latest'', ''alpine'', ''slim''])
   = map (\<lambda>n. \<lparr>DockerTag.name = n, lastUpdated = u\<rparr>)
        [''1'', ''1.2'', ''1.2.3'', ''v1.2.3'', ''1.2.3-alpine'']"
proof -
  have "isSemanticVersionTag tag =
     (rx_test semverRegex (takeWhile (\<lambda>c. c \<noteq> CHR ''-'') (DockerTag.name tag))
      \<or> rx_test semverRegex (DockerTag.name tag))"
    by (simp add: isSemanticVersionTag_def split_char_first)
  moreover have "filterSemanticVersionTags
     (map (\<lambda>n. \<lparr>DockerTag.name = n, lastUpdated = u\<rparr>)
        [''1'', ''1.2'', ''1.2.3'', ''v1.2.3'', ''1.2.3-alpine'', ''latest'', ''alpine'', ''slim''])
   = map (\<lambda>n. \<lparr>DockerTag.name = n, lastUpdated = u\<rparr>)
        [''1'', ''1.2'', ''1.2.3'', ''v1.2.3'', ''1.2.3-alpine'']"
    by (simp add: filterSemanticVersionTags_def isSemanticVersionTag_def rx_test_def
        semverRegex_def rx_opt_def rx_plus_def rx_chr_def rx_d_def rx_w_dot_def)
  ultimately show ?thesis by (rule conjI)
qed

section \<open>Properties: the matrix\<close>

lemma foldl_push: "foldl (\<lambda>matrix b. matrix @ [f b]) acc bs = acc @ map f bs"
  by (induction bs arbitrary: acc) auto

lemma foldl_push_nested:
  "foldl (\<lambda>matrix v. foldl (\<lambda>matrix b. matrix @ [g v b]) matrix bs) acc vs
   = acc @ concat (map (\<lambda>v. map (g v) bs) vs)"
  by (induction vs arbitrary: acc) (auto simp: foldl_push)

lemma buildMatrix_concat:
  "buildMatrix versions config baseImage =
     concat (map (\<lambda>ver. map (\<lambda>build. matrixEntry ver build baseImage)
                           (case builds config of None \<Rightarrow> [] | Some bs \<Rightarrow> bs))
                 versions)"
  by (simp add: buildMatrix_def foldl_push_nested)

lemma length_concat_const:
  "length (concat (map (\<lambda>v. map (g v) bs) vs)) = length vs * length bs"
  by (induction vs) auto

text \<open>
  C4. The matrix holds one entry for each pair of a version and a build configuration:
  it is the list, over the versions in their order, of the entries of the build
  configurations in their order. Its length is the product of the two lengths, the
  entries of one version are contiguous, and three versions with two build configurations
  give the six entries in that order.
\<close>

theorem matrix_is_nested_product:
  "buildMatrix versions config baseImage =
     concat (map (\<lambda>ver. map (\<lambda>build. matrixEntry ver build baseImage)
                           (case builds config of None \<Rightarrow> [] | Some bs \<Rightarrow> bs))
                 versions)
   \<and> length (buildMatrix versions config baseImage) =
       length versions * length (case builds config of None \<Rightarrow> [] | Some bs \<Rightarrow> bs)
   \<and> map version (buildMatrix versions config baseImage) =
       concat (map (\<lambda>ver. replicate (length (case builds config of None \<Rightarrow> [] | Some bs \<Rightarrow> bs)) ver)
                   versions)
   \<and> buildMatrix [v1, v2, v3] (config\<lparr>builds := Some [b1, b2]\<rparr>) baseImage =
       [matrixEntry v1 b1 baseImage, matrixEntry v1 b2 baseImage,
        matrixEntry v2 b1 baseImage, matrixEntry v2 b2 baseImage,
        matrixEntry v3 b1 baseImage, matrixEntry v3 b2 baseImage]"
proof -
  have v: "version (matrixEntry ver build baseImage) = ver" for ver build
    by (simp add: matrixEntry_def)
  have "map version (concat (map (\<lambda>ver. map (\<lambda>build. matrixEntry ver build baseImage) bs) vs))
        = concat (map (\<lambda>ver. replicate (length bs) ver) vs)" for bs vs
    by (induction vs) (auto simp: v map_replicate_const comp_def)
  then show ?thesis
    by (simp add: buildMatrix_concat length_concat_const)
qed

text \<open>
  C3. The build arguments of every entry of the matrix are the two injected bindings
  \<open>BASE_IMAGE_VERSION\<close> (the version) and \<open>BASE_IMAGE\<close> (the base image) with the build
  configuration's own arguments added over them. Key by key: a key the build configuration
  declares has the declared value, also when it is one of the two injected keys; any other
  key has the injected value or none. Both injected keys are always present.
\<close>

theorem buildArgs_precedence:
  "map buildArgs (buildMatrix versions config baseImage) =
     concat (map (\<lambda>ver. map (\<lambda>build.
                    [''BASE_IMAGE_VERSION'' \<mapsto> ver, ''BASE_IMAGE'' \<mapsto> baseImage]
                    ++ (case BuildConfig.buildArgs build of None \<Rightarrow> Map.empty | Some m \<Rightarrow> m))
                  (case builds config of None \<Rightarrow> [] | Some bs \<Rightarrow> bs))
                 versions)
   \<and> buildArgs (matrixEntry ver build baseImage) k =
       (case (case BuildConfig.buildArgs build of None \<Rightarrow> Map.empty | Some m \<Rightarrow> m) k of
          Some x \<Rightarrow> Some x
        | None \<Rightarrow> if k = ''BASE_IMAGE'' then Some baseImage
                  else if k = ''BASE_IMAGE_VERSION'' then Some ver else None)
   \<and> {''BASE_IMAGE_VERSION'', ''BASE_IMAGE''} \<subseteq> dom (buildArgs (matrixEntry ver build baseImage))"
proof -
  have a: "buildArgs (matrixEntry ver build baseImage) =
        [''BASE_IMAGE_VERSION'' \<mapsto> ver, ''BASE_IMAGE'' \<mapsto> baseImage]
        ++ (case BuildConfig.buildArgs build of None \<Rightarrow> Map.empty | Some m \<Rightarrow> m)" for ver build
    by (simp add: matrixEntry_def)
  have b: "map buildArgs (buildMatrix versions config baseImage) =
     concat (map (\<lambda>ver. map (\<lambda>build.
                    [''BASE_IMAGE_VERSION'' \<mapsto> ver, ''BASE_IMAGE'' \<mapsto> baseImage]
                    ++ (case BuildConfig.buildArgs build of None \<Rightarrow> Map.empty | Some m \<Rightarrow> m))
                  (case builds config of None \<Rightarrow> [] | Some bs \<Rightarrow> bs))
                 versions)"
    by (simp add: buildMatrix_concat map_concat comp_def a)
  have c: "buildArgs (matrixEntry ver build baseImage) k =
       (case (case BuildConfig.buildArgs build of None \<Rightarrow> Map.empty | Some m \<Rightarrow> m) k of
          Some x \<Rightarrow> Some x
        | None \<Rightarrow> if k = ''BASE_IMAGE'' then Some baseImage
                  else if k = ''BASE_IMAGE_VERSION'' then Some ver else None)"
    by (simp add: a map_add_def split: option.splits)
  have d: "{''BASE_IMAGE_VERSION'', ''BASE_IMAGE''} \<subseteq> dom (buildArgs (matrixEntry ver build baseImage))"
    by (auto simp: a)
  from b c d show ?thesis by blast
qed

section \<open>Properties: ranges joined by a pipe\<close>

lemmas coerce_eval =
  cleanVersionString_def stripLeadingV_def semver_coerce_def coerceAt_def dotDigits_def
  MAX_SAFE_COMPONENT_LENGTH_def is_digit_def

lemmas parse_eval =
  SemVer_new_def MAX_LENGTH_def parse_full_def parse_main_def js_trim_def is_space_def
  is_numeric_identifier_def is_digit_def nat_of_digits_def digit_val_def MAX_SAFE_INTEGER_def
  is_prerelease_identifier_def is_letterdashnumber_def is_letter_def to_ident_def

lemmas show_eval = SemVer_version_def show_nat.simps digit_char_def













lemma find_latest: "coerceFind True ''latest'' = None"
  by (simp add: coerce_eval)

lemma clean_latest: "cleanVersionString ''latest'' = ''latest''"
  by (simp add: cleanVersionString_def stripLeadingV_def semver_coerce_def find_latest del: coerceFind.simps)












section \<open>Properties: normalization\<close>

lemma digit_roundtrip: "is_digit d \<Longrightarrow> digit_val d < 10 \<and> digit_char (digit_val d) = d"
  by (auto simp: is_digit_def digit_val_def digit_char_def)

lemma nat_of_digits_snoc: "nat_of_digits (ds @ [d]) = 10 * nat_of_digits ds + digit_val d"
  by (simp add: nat_of_digits_def)

lemma show_nat_digits:
  "ds \<noteq> [] \<Longrightarrow> list_all is_digit ds \<Longrightarrow> hd ds \<noteq> CHR ''0'' \<Longrightarrow>
   show_nat (nat_of_digits ds) = ds \<and> 0 < nat_of_digits ds"
proof (induction ds rule: rev_induct)
  case Nil
  then show ?case by simp
next
  case (snoc d ds)
  have d: "digit_val d < 10" "digit_char (digit_val d) = d"
    using snoc.prems(2) digit_roundtrip [of d] by simp_all
  show ?case
  proof (cases "ds = []")
    case True
    with snoc.prems have "d \<noteq> CHR ''0''" "is_digit d" by simp_all
    then have "0 < digit_val d"
      by (auto simp: is_digit_def digit_val_def)
    with True d show ?thesis
      by (simp add: nat_of_digits_def show_nat.simps)
  next
    case False
    with snoc have ih: "show_nat (nat_of_digits ds) = ds" "0 < nat_of_digits ds"
      by simp_all
    let ?n = "10 * nat_of_digits ds + digit_val d"
    have "\<not> ?n < 10" using ih(2) by simp
    moreover have "?n div 10 = nat_of_digits ds" "?n mod 10 = digit_val d"
      using d(1) by simp_all
    ultimately have "show_nat ?n = ds @ [d]"
      using ih(1) d(2) by (subst show_nat.simps) simp
    with ih(2) show ?thesis by (simp add: nat_of_digits_snoc)
  qed
qed

lemma show_nat_numeric_identifier:
  assumes "is_numeric_identifier ds"
  shows "show_nat (nat_of_digits ds) = ds"
proof (cases "ds = ''0''")
  case True
  then show ?thesis
    by (simp add: nat_of_digits_def digit_val_def show_nat.simps digit_char_def)
next
  case False
  with assms have "ds \<noteq> []" "list_all is_digit ds" "hd ds \<noteq> CHR ''0''"
    by (auto simp: is_numeric_identifier_def take_Suc)
  then show ?thesis by (simp add: show_nat_digits)
qed

lemma split_char_no_sep: "c \<notin> set a \<Longrightarrow> split_char c a = [a]"
  by (induction a) auto

lemma split_char_append: "c \<notin> set a \<Longrightarrow> split_char c (a @ c # rest) = a # split_char c rest"
  by (induction a) auto

lemma js_trim_id:
  assumes "s \<noteq> []" and "\<not> is_space (hd s)" and "\<not> is_space (last s)"
  shows "js_trim s = s"
proof -
  have "dropWhile is_space s = s"
    using assms(1,2) by (cases s) auto
  moreover have "dropWhile is_space (rev s) = rev s"
    using assms(1,3) by (cases "rev s") (auto simp: last_rev [symmetric] simp del: last_rev)
  ultimately show ?thesis by (simp add: js_trim_def)
qed

text \<open>A digit string between dots parses as the version it spells.\<close>

lemma parse_full_plain:
  assumes "M \<noteq> []" "list_all is_digit M" "m \<noteq> []" "list_all is_digit m"
    "p \<noteq> []" "list_all is_digit p"
  shows "parse_full (js_trim (M @ ''.'' @ m @ ''.'' @ p)) =
           (if is_numeric_identifier M \<and> is_numeric_identifier m \<and> is_numeric_identifier p
               \<and> nat_of_digits M \<le> MAX_SAFE_INTEGER \<and> nat_of_digits m \<le> MAX_SAFE_INTEGER
               \<and> nat_of_digits p \<le> MAX_SAFE_INTEGER
            then Some \<lparr>major = nat_of_digits M, minor = nat_of_digits m,
                       patch = nat_of_digits p, prerelease = []\<rparr>
            else None)"
proof -
  let ?str = "M @ ''.'' @ m @ ''.'' @ p"
  have nd: "\<not> is_digit CHR ''.''" "\<not> is_digit CHR ''-''" "\<not> is_digit CHR ''+''"
    "\<not> is_digit CHR ''v''"
    by (simp_all add: is_digit_def)
  have sp: "\<not> is_space c" if "is_digit c" for c
    using that by (auto simp: is_digit_def is_space_def)
  have hdM: "is_digit (hd M)" and lastp: "is_digit (last p)"
    using assms by (auto simp: list_all_iff)
  have "hd ?str = hd M" "last ?str = last p"
    using assms by simp_all
  then have trim: "js_trim ?str = ?str"
    using hdM lastp sp assms(1) by (intro js_trim_id) auto
  have nodot: "CHR ''.'' \<notin> set M" "CHR ''.'' \<notin> set m" "CHR ''.'' \<notin> set p"
    using assms nd by (auto simp: list_all_iff)
  have split: "split_char CHR ''.'' ?str = [M, m, p]"
    using nodot by (simp add: split_char_append split_char_no_sep)
  have noplus: "CHR ''+'' \<notin> set ?str" and nodash: "CHR ''-'' \<notin> set ?str"
    using assms nd by (auto simp: list_all_iff)
  have s1: "(case ?str of [] \<Rightarrow> ?str | c # r \<Rightarrow> if c = CHR ''v'' then r else ?str) = ?str"
    using assms(1) hdM nd(4) by (cases M) auto
  have tw: "takeWhile (\<lambda>c. c \<noteq> CHR ''+'') ?str = ?str"
    "dropWhile (\<lambda>c. c \<noteq> CHR ''+'') ?str = []"
    "takeWhile (\<lambda>c. c \<noteq> CHR ''-'') ?str = ?str"
    "dropWhile (\<lambda>c. c \<noteq> CHR ''-'') ?str = []"
    using noplus nodash by (auto simp: takeWhile_eq_all_conv dropWhile_eq_Nil_conv)
  have "parse_full ?str =
          (case parse_main ?str of
             None \<Rightarrow> None
           | Some (a, b, c) \<Rightarrow> Some \<lparr>major = a, minor = b, patch = c, prerelease = []\<rparr>)"
    unfolding parse_full_def Let_def s1 tw by simp
  also have "\<dots> = (if is_numeric_identifier M \<and> is_numeric_identifier m \<and> is_numeric_identifier p
               \<and> nat_of_digits M \<le> MAX_SAFE_INTEGER \<and> nat_of_digits m \<le> MAX_SAFE_INTEGER
               \<and> nat_of_digits p \<le> MAX_SAFE_INTEGER
            then Some \<lparr>major = nat_of_digits M, minor = nat_of_digits m,
                       patch = nat_of_digits p, prerelease = []\<rparr>
            else None)"
    unfolding parse_main_def split by simp
  finally show ?thesis by (simp only: trim)
qed

lemma parse_100: "SemVer_new ''1.0.0'' = Some \<lparr>major = 1, minor = 0, patch = 0, prerelease = []\<rparr>"
  by (simp add: parse_eval)

lemma parse_120: "SemVer_new ''1.2.0'' = Some \<lparr>major = 1, minor = 2, patch = 0, prerelease = []\<rparr>"
  by (simp add: parse_eval)

lemma parse_123: "SemVer_new ''1.2.3'' = Some \<lparr>major = 1, minor = 2, patch = 3, prerelease = []\<rparr>"
  by (simp add: parse_eval)

lemma parse_123_alpine:
  "SemVer_new ''1.2.3-alpine'' =
     Some \<lparr>major = 1, minor = 2, patch = 3, prerelease = [Str ''alpine'']\<rparr>"
  by (simp add: parse_eval)

lemma find_1: "coerceFind True ''1'' = Some (''1'', None, None)"
  by (simp add: coerce_eval)

lemma find_12: "coerceFind True ''1.2'' = Some (''1'', Some ''2'', None)"
  by (simp add: coerce_eval)

lemma find_123: "coerceFind True ''1.2.3'' = Some (''1'', Some ''2'', Some ''3'')"
  by (simp add: coerce_eval)

lemma find_123_alpine: "coerceFind True ''1.2.3-alpine'' = Some (''1'', Some ''2'', Some ''3'')"
  by (simp add: coerce_eval)

lemma clean_1: "cleanVersionString ''1'' = ''1.0.0''"
  by (simp add: cleanVersionString_def stripLeadingV_def semver_coerce_def find_1 parse_100
      show_eval del: coerceFind.simps)

lemma clean_12: "cleanVersionString ''1.2'' = ''1.2.0''"
  by (simp add: cleanVersionString_def stripLeadingV_def semver_coerce_def find_12 parse_120
      show_eval del: coerceFind.simps)

lemma clean_v123: "cleanVersionString ''v1.2.3'' = ''1.2.3''"
  by (simp add: cleanVersionString_def stripLeadingV_def semver_coerce_def find_123 parse_123
      show_eval del: coerceFind.simps)

lemma clean_123_alpine: "cleanVersionString ''1.2.3-alpine'' = ''1.2.3''"
  by (simp add: cleanVersionString_def stripLeadingV_def semver_coerce_def find_123_alpine
      parse_123 show_eval del: coerceFind.simps)

text \<open>The match of \<^verbatim>\<open>semver.coerce\<close> in words: the terms \<open>wholeRun\<close>, \<open>dotRun\<close> and
  \<open>minorPatch\<close> say where the pattern matches and what its groups are.\<close>

lemma takeWhile_whole:
  assumes "list_all P ds" and "after = [] \<or> \<not> P (hd after)"
  shows "takeWhile P (ds @ after) = ds \<and> dropWhile P (ds @ after) = after"
  using assms by (cases after) (auto simp: list_all_iff takeWhile_append dropWhile_append)

lemma dotDigits_iff:
  "dotDigits t = Some (d, t') \<longleftrightarrow> t = CHR ''.'' # d @ t' \<and> wholeRun ''.'' d t'"
proof
  assume "dotDigits t = Some (d, t')"
  then obtain r where t: "t = CHR ''.'' # r" and d: "d = takeWhile is_digit r"
    and t': "t' = dropWhile is_digit r" and ne: "d \<noteq> []"
    and le: "length d \<le> MAX_SAFE_COMPONENT_LENGTH"
    by (auto simp: dotDigits_def split: list.splits if_splits)
  have "list_all is_digit d" by (auto simp: d list_all_iff dest: set_takeWhileD)
  moreover have "t' = [] \<or> \<not> is_digit (hd t')"
    unfolding t' by (metis hd_dropWhile)
  moreover have "\<not> is_digit CHR ''.''" by (simp add: is_digit_def)
  ultimately show "t = CHR ''.'' # d @ t' \<and> wholeRun ''.'' d t'"
    using t d t' ne le by (simp add: wholeRun_def)
next
  assume a: "t = CHR ''.'' # d @ t' \<and> wholeRun ''.'' d t'"
  then have "takeWhile is_digit (d @ t') = d \<and> dropWhile is_digit (d @ t') = t'"
    by (intro takeWhile_whole) (simp_all add: wholeRun_def)
  with a show "dotDigits t = Some (d, t')"
    by (simp add: dotDigits_def wholeRun_def)
qed

lemma coerceAt_iff:
  "coerceAt s = Some (M, m, p) \<longleftrightarrow>
     (\<exists>rest. s = M @ rest \<and> wholeRun [] M rest
        \<and> m = map_option fst (dotDigits rest)
        \<and> p = (case dotDigits rest of None \<Rightarrow> None
                | Some (d, rest') \<Rightarrow> map_option fst (dotDigits rest')))"
proof
  assume a: "coerceAt s = Some (M, m, p)"
  define rest where "rest = dropWhile is_digit s"
  have M: "M = takeWhile is_digit s" and ne: "M \<noteq> []" and le: "length M \<le> MAX_SAFE_COMPONENT_LENGTH"
    using a by (auto simp: coerceAt_def Let_def split: if_splits option.splits)
  have s: "s = M @ rest" by (simp add: M rest_def)
  have "list_all is_digit M" by (auto simp: M list_all_iff dest: set_takeWhileD)
  moreover have "rest = [] \<or> \<not> is_digit (hd rest)"
    unfolding rest_def by (metis hd_dropWhile)
  ultimately have w: "wholeRun [] M rest" using ne le by (simp add: wholeRun_def)
  have "m = map_option fst (dotDigits rest)
        \<and> p = (case dotDigits rest of None \<Rightarrow> None
                | Some (d, rest') \<Rightarrow> map_option fst (dotDigits rest'))"
    using a ne le by (auto simp: coerceAt_def Let_def M [symmetric] rest_def [symmetric]
        split: if_splits option.splits)
  with s w show "\<exists>rest. s = M @ rest \<and> wholeRun [] M rest
        \<and> m = map_option fst (dotDigits rest)
        \<and> p = (case dotDigits rest of None \<Rightarrow> None
                | Some (d, rest') \<Rightarrow> map_option fst (dotDigits rest'))"
    by blast
next
  assume "\<exists>rest. s = M @ rest \<and> wholeRun [] M rest
        \<and> m = map_option fst (dotDigits rest)
        \<and> p = (case dotDigits rest of None \<Rightarrow> None
                | Some (d, rest') \<Rightarrow> map_option fst (dotDigits rest'))"
  then obtain rest where s: "s = M @ rest" and w: "wholeRun [] M rest"
    and m: "m = map_option fst (dotDigits rest)"
    and p: "p = (case dotDigits rest of None \<Rightarrow> None
                | Some (d, rest') \<Rightarrow> map_option fst (dotDigits rest'))"
    by blast
  have "takeWhile is_digit (M @ rest) = M \<and> dropWhile is_digit (M @ rest) = rest"
    using w by (intro takeWhile_whole) (simp_all add: wholeRun_def)
  with w m p show "coerceAt s = Some (M, m, p)"
    by (auto simp: coerceAt_def Let_def s wholeRun_def split: option.splits)
qed


lemma coerceAt_None:
  "coerceAt s = None \<longleftrightarrow>
     takeWhile is_digit s = [] \<or> length (takeWhile is_digit s) > MAX_SAFE_COMPONENT_LENGTH"
  by (auto simp: coerceAt_def Let_def split: option.splits)

lemma coerceFind_None_imp:
  "coerceFind b r = None \<Longrightarrow> r = pre @ ds @ after \<Longrightarrow> ds \<noteq> [] \<Longrightarrow> list_all is_digit ds \<Longrightarrow>
   length ds \<le> MAX_SAFE_COMPONENT_LENGTH \<Longrightarrow> (if pre = [] then b else \<not> is_digit (last pre)) \<Longrightarrow>
   after = [] \<or> \<not> is_digit (hd after) \<Longrightarrow> False"
proof (induction b r arbitrary: pre rule: coerceFind.induct)
  case (1 boundary)
  then show ?case by simp
next
  case (2 boundary c cs)
  show ?case
  proof (cases pre)
    case Nil
    with "2.prems" have b: boundary and e: "c # cs = ds @ after" by simp_all
    have tw: "takeWhile is_digit (ds @ after) = ds"
      using "2.prems"(4,7) takeWhile_whole [of is_digit ds after] by simp
    have "is_digit c"
      using e "2.prems"(3,4) by (cases ds) simp_all
    moreover have "coerceAt (c # cs) \<noteq> None"
      using tw "2.prems"(3,5) by (simp add: coerceAt_None e)
    ultimately show ?thesis using "2.prems"(1) b by (auto split: option.splits)
  next
    case (Cons c' pre')
    with "2.prems"(2) have c: "c' = c" and cs: "cs = pre' @ ds @ after" by simp_all
    show ?thesis
    proof (cases "is_digit c")
      case False
      then have "coerceFind True cs = None" using "2.prems"(1) by simp
      moreover have "if pre' = [] then True else \<not> is_digit (last pre')"
        using "2.prems"(6) Cons by (simp split: if_splits)
      ultimately show ?thesis
        using "2.IH"(3) [OF False _ cs "2.prems"(3,4,5) _ "2.prems"(7)] by blast
    next
      case True
      then have ne: "pre' \<noteq> []" and l: "\<not> is_digit (last pre')"
        using "2.prems"(6) Cons c by (auto split: if_splits)
      then have f: "if pre' = [] then False else \<not> is_digit (last pre')" by simp
      show ?thesis
      proof (cases boundary)
        case False
        then have "coerceFind False cs = None" using "2.prems"(1) True by simp
        from "2.IH"(2) [OF True False this cs "2.prems"(3,4,5) f "2.prems"(7)]
        show ?thesis .
      next
        case b: True
        then have n: "coerceAt (c # cs) = None" and "coerceFind False cs = None"
          using "2.prems"(1) True by (auto split: option.splits)
        from "2.IH"(1) [OF True b n this(2) cs "2.prems"(3,4,5) f "2.prems"(7)]
        show ?thesis .
      qed
    qed
  qed
qed

lemma takeWhile_stops:
  assumes "pre \<noteq> []" and "\<not> P (last pre)"
  shows "takeWhile P (pre @ s) = takeWhile P pre"
proof -
  have "last pre \<in> set pre" using assms(1) by simp
  with assms(2) show ?thesis by (intro takeWhile_append1) auto
qed

lemma coerceFind_Some_imp:
  "coerceFind b r = Some (M, m, p) \<Longrightarrow>
   \<exists>pre after. r = pre @ M @ after
      \<and> (if pre = [] then b else \<not> is_digit (last pre))
      \<and> coerceFind b pre = None
      \<and> coerceAt (M @ after) = Some (M, m, p)"
proof (induction b r rule: coerceFind.induct)
  case (1 boundary)
  then show ?case by simp
next
  case (2 boundary c cs)
  show ?case
  proof (cases "is_digit c")
    case False
    then have "coerceFind True cs = Some (M, m, p)" using "2.prems" by simp
    from "2.IH"(3) [OF False this]
    obtain pre after where cs: "cs = pre @ M @ after"
      and n: "coerceFind True pre = None" and a: "coerceAt (M @ after) = Some (M, m, p)"
      and l: "if pre = [] then True else \<not> is_digit (last pre)"
      by blast
    have "c # cs = (c # pre) @ M @ after" by (simp add: cs)
    moreover have "if c # pre = [] then boundary else \<not> is_digit (last (c # pre))"
      using l False by (simp split: if_splits)
    moreover have "coerceFind boundary (c # pre) = None"
      using False n by simp
    ultimately show ?thesis using a by blast
  next
    case True
    show ?thesis
    proof (cases "boundary \<and> coerceAt (c # cs) \<noteq> None")
      case found: True
      then have a: "coerceAt (c # cs) = Some (M, m, p)"
        using "2.prems" True by (auto split: option.splits)
      then obtain after where "c # cs = M @ after"
        using coerceAt_iff [of "c # cs" M m p] by blast
      then have "c # cs = [] @ M @ after \<and> (if [] = ([] :: string) then boundary else True)
          \<and> coerceFind boundary [] = None \<and> coerceAt (M @ after) = Some (M, m, p)"
        using a found by simp
      then show ?thesis by (metis (full_types))
    next
      case False
      then have rec: "coerceFind False cs = Some (M, m, p)"
        using "2.prems" True by (auto split: option.splits)
      have "\<exists>pre after. cs = pre @ M @ after
          \<and> (if pre = [] then False else \<not> is_digit (last pre))
          \<and> coerceFind False pre = None \<and> coerceAt (M @ after) = Some (M, m, p)"
      proof (cases boundary)
        case b: True
        with False have "coerceAt (c # cs) = None" by blast
        from "2.IH"(1) [OF True b this rec] show ?thesis .
      next
        case b: False
        from "2.IH"(2) [OF True b rec] show ?thesis .
      qed
      then obtain pre after where cs: "cs = pre @ M @ after"
        and c0: "if pre = [] then False else \<not> is_digit (last pre)"
        and n: "coerceFind False pre = None" and a: "coerceAt (M @ after) = Some (M, m, p)"
        by blast
      from c0 have ne: "pre \<noteq> []" and l: "\<not> is_digit (last pre)"
        by (simp_all split: if_splits)
      have "takeWhile is_digit (c # cs) = takeWhile is_digit (c # pre)"
        using takeWhile_stops [of "c # pre" is_digit "M @ after"] ne l by (simp add: cs)
      then have imp: "coerceAt (c # cs) = None \<Longrightarrow> coerceAt (c # pre) = None"
        by (simp add: coerceAt_None)
      have "coerceFind boundary (c # pre) = None"
      proof (cases boundary)
        case b: True
        with False have "coerceAt (c # cs) = None" by blast
        then have "coerceAt (c # pre) = None" by (rule imp)
        with True n show ?thesis by simp
      next
        case b: False
        with True n show ?thesis by simp
      qed
      moreover have "c # cs = (c # pre) @ M @ after" by (simp add: cs)
      moreover have "if c # pre = [] then boundary else \<not> is_digit (last (c # pre))"
        using ne l by simp
      ultimately show ?thesis using a by blast
    qed
  qed
qed


lemma dotDigits_dotRun: "dotDigits t = Some (d, t') \<longleftrightarrow> dotRun t d t'"
  by (simp add: dotDigits_iff dotRun_def)

lemma dotDigits_None: "dotDigits t = None \<longleftrightarrow> (\<forall>ds t'. \<not> dotRun t ds t')"
  using dotDigits_dotRun [of t] by (cases "dotDigits t") auto

lemma dotRun_unique:
  assumes "dotRun t d t'" and "dotRun t e u"
  shows "d = e \<and> t' = u"
proof -
  have "dotDigits t = Some (d, t')" "dotDigits t = Some (e, u)"
    using assms by (simp_all add: dotDigits_dotRun)
  then show ?thesis by simp
qed

lemma minorPatch_cases:
  "minorPatch after m' p' \<longleftrightarrow>
     (case dotDigits after of
        None \<Rightarrow> m' = ''0'' \<and> p' = ''0''
      | Some (m0, t1) \<Rightarrow>
          m' = m0 \<and> (case dotDigits t1 of None \<Rightarrow> p' = ''0'' | Some (p0, t2) \<Rightarrow> p' = p0))"
proof (cases "dotDigits after")
  case None
  then have "\<forall>ds t. \<not> dotRun after ds t" by (simp add: dotDigits_None)
  then show ?thesis using None by (simp add: minorPatch_def)
next
  case (Some a)
  obtain m0 t1 where a: "a = (m0, t1)" by (cases a)
  with Some have r1: "dotRun after m0 t1" by (simp add: dotDigits_dotRun)
  have u1: "dotRun after m t \<longleftrightarrow> m = m0 \<and> t = t1" for m t
    using r1 dotRun_unique [OF r1, of m t] by blast
  have mp: "minorPatch after m' p' \<longleftrightarrow>
        m' = m0 \<and> (((\<forall>ds t. \<not> dotRun t1 ds t) \<and> p' = ''0'') \<or> (\<exists>t2. dotRun t1 p' t2))"
    by (simp add: minorPatch_def u1)
  show ?thesis
  proof (cases "dotDigits t1")
    case None
    then have "\<forall>ds t. \<not> dotRun t1 ds t" by (simp add: dotDigits_None)
    then show ?thesis using Some a None by (simp add: mp)
  next
    case (Some b)
    obtain p0 t2 where b: "b = (p0, t2)" by (cases b)
    with Some have r2: "dotRun t1 p0 t2" by (simp add: dotDigits_dotRun)
    have u2: "dotRun t1 p t \<longleftrightarrow> p = p0 \<and> t = t2" for p t
      using r2 dotRun_unique [OF r2, of p t] by blast
    show ?thesis using \<open>dotDigits after = Some a\<close> a Some b by (simp add: mp u2)
  qed
qed

lemma coerceAt_minorPatch:
  assumes "wholeRun [] M after"
  shows "minorPatch after m' p' \<longleftrightarrow>
           (\<exists>m p. coerceAt (M @ after) = Some (M, m, p)
              \<and> m' = (case m of None \<Rightarrow> ''0'' | Some x \<Rightarrow> x)
              \<and> p' = (case p of None \<Rightarrow> ''0'' | Some x \<Rightarrow> x))"
proof -
  have at: "coerceAt (M @ after) = Some (M, m, p) \<longleftrightarrow>
        m = map_option fst (dotDigits after)
        \<and> p = (case dotDigits after of None \<Rightarrow> None
                | Some (d, rest') \<Rightarrow> map_option fst (dotDigits rest'))" for m p
    using assms coerceAt_iff [of "M @ after" M m p] by auto
  show ?thesis
    unfolding at minorPatch_cases
    by (simp split: option.splits prod.splits)
qed

lemma coerceFind_first:
  "coerceFind b pre = None \<Longrightarrow> (if pre = [] then b else \<not> is_digit (last pre)) \<Longrightarrow>
   wholeRun [] M after \<Longrightarrow> coerceFind b (pre @ M @ after) = coerceAt (M @ after)"
proof (induction b pre rule: coerceFind.induct)
  case (1 boundary)
  then have b: boundary by simp
  obtain c M' where M: "M = c # M'" and c: "is_digit c"
    using "1.prems"(3) by (cases M) (auto simp: wholeRun_def)
  obtain m p where "coerceAt (M @ after) = Some (M, m, p)"
    using "1.prems"(3) coerceAt_iff [of "M @ after" M] by blast
  then show ?case using b c by (simp add: M)
next
  case (2 boundary c cs)
  show ?case
  proof (cases "is_digit c")
    case False
    then have "coerceFind True cs = None" using "2.prems"(1) by simp
    moreover have "if cs = [] then True else \<not> is_digit (last cs)"
      using "2.prems"(2) by (simp split: if_splits)
    ultimately have "coerceFind True (cs @ M @ after) = coerceAt (M @ after)"
      using "2.IH"(3) [OF False] "2.prems"(3) by blast
    with False show ?thesis by simp
  next
    case True
    then have ne: "cs \<noteq> []" and l: "\<not> is_digit (last cs)"
      using "2.prems"(2) by (auto split: if_splits)
    then have f: "if cs = [] then False else \<not> is_digit (last cs)" by simp
    show ?thesis
    proof (cases boundary)
      case b: False
      then have "coerceFind False cs = None" using "2.prems"(1) True by simp
      from "2.IH"(2) [OF True b this f "2.prems"(3)] True b show ?thesis by simp
    next
      case b: True
      then have n: "coerceAt (c # cs) = None" and n': "coerceFind False cs = None"
        using "2.prems"(1) True by (auto split: option.splits)
      have "takeWhile is_digit (c # cs @ M @ after) = takeWhile is_digit (c # cs)"
        using takeWhile_stops [of "c # cs" is_digit "M @ after"] ne l by simp
      with n have n2: "coerceAt (c # cs @ M @ after) = None"
        by (simp add: coerceAt_None)
      from "2.IH"(1) [OF True b n n' f "2.prems"(3)] True b n2 show ?thesis by simp
    qed
  qed
qed

lemma coerceFind_None_iff:
  "coerceFind True r = None \<longleftrightarrow> (\<forall>pre ds after. r = pre @ ds @ after \<longrightarrow> \<not> wholeRun pre ds after)"
proof
  assume n: "coerceFind True r = None"
  show "\<forall>pre ds after. r = pre @ ds @ after \<longrightarrow> \<not> wholeRun pre ds after"
  proof (intro allI impI notI)
    fix pre ds after assume r: "r = pre @ ds @ after" and w: "wholeRun pre ds after"
    from w have "if pre = [] then True else \<not> is_digit (last pre)"
      by (auto simp: wholeRun_def)
    from coerceFind_None_imp [OF n r _ _ _ this] w show False
      by (simp add: wholeRun_def)
  qed
next
  assume a: "\<forall>pre ds after. r = pre @ ds @ after \<longrightarrow> \<not> wholeRun pre ds after"
  show "coerceFind True r = None"
  proof (rule ccontr)
    assume "coerceFind True r \<noteq> None"
    then obtain M m p where "coerceFind True r = Some (M, m, p)" by (cases "coerceFind True r") auto
    from coerceFind_Some_imp [OF this]
    obtain pre after where r: "r = pre @ M @ after"
      and b: "if pre = [] then True else \<not> is_digit (last pre)"
      and at: "coerceAt (M @ after) = Some (M, m, p)"
      by blast
    from at obtain after' where "M @ after = M @ after'" "wholeRun [] M after'"
      using coerceAt_iff [of "M @ after" M m p] by blast
    then have "wholeRun [] M after" by simp
    with b have "wholeRun pre M after" by (simp add: wholeRun_def split: if_splits)
    with a r show False by blast
  qed
qed


lemma wholeRun_shape:
  "wholeRun pre ds after \<Longrightarrow> ds \<noteq> [] \<and> list_all is_digit ds \<and> length ds \<le> 16"
  by (simp add: wholeRun_def MAX_SAFE_COMPONENT_LENGTH_def)

lemma coerceAt_shape:
  assumes "coerceAt s = Some (M, m, p)"
  defines "m' \<equiv> (case m of None \<Rightarrow> ''0'' | Some x \<Rightarrow> x)"
    and "p' \<equiv> (case p of None \<Rightarrow> ''0'' | Some x \<Rightarrow> x)"
  shows "(M \<noteq> [] \<and> list_all is_digit M \<and> length M \<le> 16)
       \<and> (m' \<noteq> [] \<and> list_all is_digit m' \<and> length m' \<le> 16)
       \<and> (p' \<noteq> [] \<and> list_all is_digit p' \<and> length p' \<le> 16)"
proof -
  have z: "''0'' \<noteq> [] \<and> list_all is_digit ''0'' \<and> length ''0'' \<le> 16"
    by (simp add: is_digit_def)
  from assms(1) obtain rest where w: "wholeRun [] M rest"
    and m: "m = map_option fst (dotDigits rest)"
    and p: "p = (case dotDigits rest of None \<Rightarrow> None
                | Some (d, rest') \<Rightarrow> map_option fst (dotDigits rest'))"
    using coerceAt_iff [of s M m p] by blast
  have d: "x \<noteq> [] \<and> list_all is_digit x \<and> length x \<le> 16" if "dotDigits t = Some (x, t')" for t x t'
    using that wholeRun_shape [of "''.''" x t'] by (simp add: dotDigits_iff)
  have "m' \<noteq> [] \<and> list_all is_digit m' \<and> length m' \<le> 16"
  proof (cases "dotDigits rest")
    case None
    with m z show ?thesis by (simp add: m'_def)
  next
    case (Some a)
    then show ?thesis using m d [of rest "fst a" "snd a"] by (simp add: m'_def)
  qed
  moreover have "p' \<noteq> [] \<and> list_all is_digit p' \<and> length p' \<le> 16"
  proof (cases "dotDigits rest")
    case None
    with p z show ?thesis by (simp add: p'_def)
  next
    case (Some a)
    show ?thesis
    proof (cases "dotDigits (snd a)")
      case None
      with Some p z show ?thesis by (simp add: p'_def split: prod.splits)
    next
      case b: (Some b)
      then show ?thesis using Some p d [of "snd a" "fst b" "snd b"]
        by (simp add: p'_def split: prod.splits)
    qed
  qed
  ultimately show ?thesis using wholeRun_shape [OF w] by blast
qed

lemma clean_closed:
  assumes f: "coerceFind True (stripLeadingV s) = Some (M, m, p)"
  defines "m' \<equiv> (case m of None \<Rightarrow> ''0'' | Some x \<Rightarrow> x)"
    and "p' \<equiv> (case p of None \<Rightarrow> ''0'' | Some x \<Rightarrow> x)"
  shows "cleanVersionString s =
           (if strictNumber M \<and> strictNumber m' \<and> strictNumber p'
            then M @ ''.'' @ m' @ ''.'' @ p' else stripLeadingV s)"
    and "strictNumber M \<and> strictNumber m' \<and> strictNumber p' \<Longrightarrow>
           SemVer_new (cleanVersionString s) =
             Some \<lparr>major = nat_of_digits M, minor = nat_of_digits m',
                   patch = nat_of_digits p', prerelease = []\<rparr>"
proof -
  from coerceFind_Some_imp [OF f] obtain after where "coerceAt (M @ after) = Some (M, m, p)"
    by blast
  from coerceAt_shape [OF this]
  have shape: "M \<noteq> []" "list_all is_digit M" "m' \<noteq> []" "list_all is_digit m'"
    "p' \<noteq> []" "list_all is_digit p'"
    and len: "length M \<le> 16" "length m' \<le> 16" "length p' \<le> 16"
    by (simp_all add: m'_def p'_def)
  let ?str = "M @ ''.'' @ m' @ ''.'' @ p'"
  have nl: "\<not> length ?str > MAX_LENGTH"
    using len by (simp add: MAX_LENGTH_def)
  have cond: "(is_numeric_identifier M \<and> is_numeric_identifier m' \<and> is_numeric_identifier p'
               \<and> nat_of_digits M \<le> MAX_SAFE_INTEGER \<and> nat_of_digits m' \<le> MAX_SAFE_INTEGER
               \<and> nat_of_digits p' \<le> MAX_SAFE_INTEGER)
              = (strictNumber M \<and> strictNumber m' \<and> strictNumber p')"
    unfolding strictNumber_def by blast
  have "SemVer_new ?str = parse_full (js_trim ?str)"
    using nl by (simp only: SemVer_new_def if_False)
  also have "\<dots> = (if is_numeric_identifier M \<and> is_numeric_identifier m' \<and> is_numeric_identifier p'
               \<and> nat_of_digits M \<le> MAX_SAFE_INTEGER \<and> nat_of_digits m' \<le> MAX_SAFE_INTEGER
               \<and> nat_of_digits p' \<le> MAX_SAFE_INTEGER
            then Some \<lparr>major = nat_of_digits M, minor = nat_of_digits m',
                       patch = nat_of_digits p', prerelease = []\<rparr>
            else None)"
    by (rule parse_full_plain [OF shape])
  finally have new: "SemVer_new ?str =
          (if strictNumber M \<and> strictNumber m' \<and> strictNumber p'
           then Some \<lparr>major = nat_of_digits M, minor = nat_of_digits m',
                      patch = nat_of_digits p', prerelease = []\<rparr>
           else None)"
    by (simp only: cond)
  have co: "semver_coerce (stripLeadingV s) = SemVer_new ?str"
    using f by (simp add: semver_coerce_def m'_def p'_def)
  have sv: "semver_coerce (stripLeadingV s) =
          (if strictNumber M \<and> strictNumber m' \<and> strictNumber p'
           then Some \<lparr>major = nat_of_digits M, minor = nat_of_digits m',
                      patch = nat_of_digits p', prerelease = []\<rparr>
           else None)"
    using co new by (simp only:)
  show c: "cleanVersionString s =
           (if strictNumber M \<and> strictNumber m' \<and> strictNumber p'
            then M @ ''.'' @ m' @ ''.'' @ p' else stripLeadingV s)"
  proof (cases "strictNumber M \<and> strictNumber m' \<and> strictNumber p'")
    case True
    then have "show_nat (nat_of_digits M) = M" "show_nat (nat_of_digits m') = m'"
      "show_nat (nat_of_digits p') = p'"
      by (simp_all add: strictNumber_def show_nat_numeric_identifier)
    with True show ?thesis
      by (simp add: cleanVersionString_def sv SemVer_version_def)
  next
    case False
    then have "semver_coerce (stripLeadingV s) = None"
      using sv by (simp only: if_False)
    then have "cleanVersionString s = stripLeadingV s"
      by (simp add: cleanVersionString_def)
    with False show ?thesis by (simp only: if_False)
  qed
  show "SemVer_new (cleanVersionString s) =
             Some \<lparr>major = nat_of_digits M, minor = nat_of_digits m',
                   patch = nat_of_digits p', prerelease = []\<rparr>"
    if "strictNumber M \<and> strictNumber m' \<and> strictNumber p'"
  proof -
    from that c have "cleanVersionString s = ?str" by (simp only: simp_thms if_True)
    with new that show ?thesis by (simp only: simp_thms if_True)
  qed
qed

lemma clean_first_run:
  assumes r: "stripLeadingV s = pre @ M @ after" and w: "wholeRun pre M after"
    and first: "\<forall>a ds b. pre = a @ ds @ b \<longrightarrow> \<not> wholeRun a ds b"
    and mp: "minorPatch after m p"
  shows "cleanVersionString s =
           (if strictNumber M \<and> strictNumber m \<and> strictNumber p
            then M @ ''.'' @ m @ ''.'' @ p else stripLeadingV s)"
    and "strictNumber M \<and> strictNumber m \<and> strictNumber p \<Longrightarrow>
           SemVer_new (cleanVersionString s) =
             Some \<lparr>major = nat_of_digits M, minor = nat_of_digits m,
                   patch = nat_of_digits p, prerelease = []\<rparr>"
proof -
  have w0: "wholeRun [] M after" using w by (simp add: wholeRun_def)
  have b: "if pre = [] then True else \<not> is_digit (last pre)"
    using w by (auto simp: wholeRun_def)
  have n: "coerceFind True pre = None"
    using first by (simp add: coerceFind_None_iff)
  from mp obtain m0 p0 where at: "coerceAt (M @ after) = Some (M, m0, p0)"
    and m: "m = (case m0 of None \<Rightarrow> ''0'' | Some x \<Rightarrow> x)"
    and p: "p = (case p0 of None \<Rightarrow> ''0'' | Some x \<Rightarrow> x)"
    using coerceAt_minorPatch [OF w0, of m p] by blast
  have f: "coerceFind True (stripLeadingV s) = Some (M, m0, p0)"
    using coerceFind_first [OF n b w0] at by (simp add: r)
  from clean_closed(1) [OF f] m p
  show "cleanVersionString s =
           (if strictNumber M \<and> strictNumber m \<and> strictNumber p
            then M @ ''.'' @ m @ ''.'' @ p else stripLeadingV s)"
    by simp
  from clean_closed(2) [OF f] m p
  show "SemVer_new (cleanVersionString s) =
             Some \<lparr>major = nat_of_digits M, minor = nat_of_digits m,
                   patch = nat_of_digits p, prerelease = []\<rparr>"
    if "strictNumber M \<and> strictNumber m \<and> strictNumber p"
    using that by simp
qed

lemma clean_no_run:
  assumes "\<forall>a ds b. stripLeadingV s = a @ ds @ b \<longrightarrow> \<not> wholeRun a ds b"
  shows "cleanVersionString s = stripLeadingV s"
  using assms by (simp add: cleanVersionString_def semver_coerce_def coerceFind_None_iff [symmetric])

lemma first_run_exists:
  "(\<forall>a ds b. r = a @ ds @ b \<longrightarrow> \<not> wholeRun a ds b)
   \<or> (\<exists>pre M after m p. r = pre @ M @ after \<and> wholeRun pre M after
         \<and> (\<forall>a ds b. pre = a @ ds @ b \<longrightarrow> \<not> wholeRun a ds b) \<and> minorPatch after m p)"
proof (cases "coerceFind True r")
  case None
  then show ?thesis by (simp add: coerceFind_None_iff)
next
  case (Some t)
  obtain M m p where t: "t = (M, m, p)" by (cases t)
  from coerceFind_Some_imp [of True r M m p] Some t
  obtain pre after where r: "r = pre @ M @ after"
    and b: "if pre = [] then True else \<not> is_digit (last pre)"
    and n: "coerceFind True pre = None"
    and at: "coerceAt (M @ after) = Some (M, m, p)"
    by blast
  from at obtain after' where "M @ after = M @ after'" "wholeRun [] M after'"
    using coerceAt_iff [of "M @ after" M m p] by blast
  then have w0: "wholeRun [] M after" by simp
  with b have w: "wholeRun pre M after" by (simp add: wholeRun_def split: if_splits)
  have "minorPatch after (case m of None \<Rightarrow> ''0'' | Some x \<Rightarrow> x)
          (case p of None \<Rightarrow> ''0'' | Some x \<Rightarrow> x)"
    using coerceAt_minorPatch [OF w0] at by blast
  moreover have "\<forall>a ds b. pre = a @ ds @ b \<longrightarrow> \<not> wholeRun a ds b"
    using n by (simp add: coerceFind_None_iff)
  ultimately show ?thesis using r w by blast
qed

lemma no_digit_no_run:
  "list_all (\<lambda>c. \<not> is_digit c) r \<Longrightarrow> r = a @ ds @ b \<Longrightarrow> \<not> wholeRun a ds b"
  by (cases ds) (auto simp: wholeRun_def)

lemma find_2204: "coerceFind True ''22.04'' = Some (''22'', Some ''04'', None)"
  by (simp add: coerce_eval)

lemma clean_2204: "cleanVersionString ''22.04'' = ''22.04''"
  using clean_closed(1) [of "''22.04''" "''22''" "Some ''04''" None]
  by (simp add: stripLeadingV_def find_2204 strictNumber_def is_numeric_identifier_def
      del: coerceFind.simps)


lemma minorPatch_examples:
  "minorPatch ''.2.3-alpine'' ''2'' ''3''"
  "minorPatch ''.04'' ''04'' ''0''"
  "minorPatch ''-rc'' ''0'' ''0''"
  by (simp_all add: minorPatch_cases dotDigits_def is_digit_def MAX_SAFE_COMPONENT_LENGTH_def)

lemma strictNumber_examples:
  "strictNumber ''1''" "strictNumber ''2''" "strictNumber ''3''" "strictNumber ''0''"
  "strictNumber ''22''" "\<not> strictNumber ''04''"
  by (simp_all add: strictNumber_def is_numeric_identifier_def is_digit_def nat_of_digits_def
      digit_val_def MAX_SAFE_INTEGER_def)

lemma wholeRun_examples:
  "wholeRun [] ''1'' ''.2.3-alpine''" "wholeRun [] ''22'' ''.04''" "wholeRun [] ''5'' ''-rc''"
  by (simp_all add: wholeRun_def is_digit_def MAX_SAFE_COMPONENT_LENGTH_def)

text \<open>
  C2, as the code has it. Normalization strips one leading \<open>v\<close> and coerces what is left.
  The major is the first whole run of one to sixteen digits of the remainder, the minor and
  the patch are the whole runs of one to sixteen digits that follow it, each after a dot,
  and a missing one is read as \<open>0\<close>. When all three are numeric identifiers (\<open>0\<close>, or
  digits without a leading zero) of at most \<open>2^53 - 1\<close>, the result is the strict version
  \<open>MAJOR.MINOR.PATCH\<close>, without prerelease, whatever else the name holds being dropped:
  \<open>1\<close> gives \<open>1.0.0\<close>, \<open>1.2\<close> gives \<open>1.2.0\<close>, \<open>v1.2.3\<close> gives \<open>1.2.3\<close>, and the strict
  \<open>1.2.3-alpine\<close> gives \<open>1.2.3\<close>. Otherwise, that is when one of the three has a leading
  zero or is too large, as in \<open>22.04\<close>, or when the remainder holds no such run of digits, as
  in \<open>latest\<close>, the result is the name with only the \<open>v\<close> stripped. Every name is of one of
  these two kinds.
\<close>

theorem normalization_coerces:
  "(stripLeadingV s = pre @ M @ after \<and> wholeRun pre M after
      \<and> (\<forall>a ds b. pre = a @ ds @ b \<longrightarrow> \<not> wholeRun a ds b) \<and> minorPatch after m p \<longrightarrow>
      cleanVersionString s =
        (if strictNumber M \<and> strictNumber m \<and> strictNumber p
         then M @ ''.'' @ m @ ''.'' @ p else stripLeadingV s)
      \<and> (strictNumber M \<and> strictNumber m \<and> strictNumber p \<longrightarrow>
           SemVer_new (cleanVersionString s) =
             Some \<lparr>major = nat_of_digits M, minor = nat_of_digits m,
                   patch = nat_of_digits p, prerelease = []\<rparr>))
   \<and> ((\<forall>a ds b. stripLeadingV s = a @ ds @ b \<longrightarrow> \<not> wholeRun a ds b) \<longrightarrow>
        cleanVersionString s = stripLeadingV s)
   \<and> ((\<forall>a ds b. stripLeadingV s = a @ ds @ b \<longrightarrow> \<not> wholeRun a ds b)
        \<or> (\<exists>pre M after m p. stripLeadingV s = pre @ M @ after \<and> wholeRun pre M after
              \<and> (\<forall>a ds b. pre = a @ ds @ b \<longrightarrow> \<not> wholeRun a ds b) \<and> minorPatch after m p))
   \<and> stripLeadingV (CHR ''v'' # t) = t
   \<and> (take 1 t \<noteq> ''v'' \<longrightarrow> stripLeadingV t = t)
   \<and> cleanVersionString ''1'' = ''1.0.0''
   \<and> cleanVersionString ''1.2'' = ''1.2.0''
   \<and> cleanVersionString ''v1.2.3'' = ''1.2.3''
   \<and> cleanVersionString ''1.2.3-alpine'' = ''1.2.3''
   \<and> cleanVersionString ''latest'' = ''latest''
   \<and> cleanVersionString ''22.04'' = ''22.04''"
proof -
  have a: "cleanVersionString s =
        (if strictNumber M \<and> strictNumber m \<and> strictNumber p
         then M @ ''.'' @ m @ ''.'' @ p else stripLeadingV s)
      \<and> (strictNumber M \<and> strictNumber m \<and> strictNumber p \<longrightarrow>
           SemVer_new (cleanVersionString s) =
             Some \<lparr>major = nat_of_digits M, minor = nat_of_digits m,
                   patch = nat_of_digits p, prerelease = []\<rparr>)"
    if "stripLeadingV s = pre @ M @ after \<and> wholeRun pre M after
      \<and> (\<forall>a ds b. pre = a @ ds @ b \<longrightarrow> \<not> wholeRun a ds b) \<and> minorPatch after m p"
    using that clean_first_run [of s pre M after m p] by blast
  have b: "cleanVersionString s = stripLeadingV s"
    if "\<forall>a ds b. stripLeadingV s = a @ ds @ b \<longrightarrow> \<not> wholeRun a ds b"
    using that by (rule clean_no_run)
  have c: "stripLeadingV (CHR ''v'' # t) = t"
    by (simp add: stripLeadingV_def)
  have d: "stripLeadingV t = t" if "take 1 t \<noteq> ''v''"
    using that by (cases t) (simp_all add: stripLeadingV_def)
  note e = first_run_exists [of "stripLeadingV s"]
  from a b c d show ?thesis
    apply (intro conjI impI)
               apply blast
              apply blast
             apply blast
            apply (rule e)
           apply (rule c)
          apply blast
         apply (rule clean_1)
        apply (rule clean_12)
       apply (rule clean_v123)
      apply (rule clean_123_alpine)
     apply (rule clean_latest)
    apply (rule clean_2204)
    done
qed

theorem normalization_coerces_witness:
  "stripLeadingV ''v1.2.3-alpine'' = [] @ ''1'' @ ''.2.3-alpine''
   \<and> wholeRun [] ''1'' ''.2.3-alpine''
   \<and> \<not> (\<exists>a ds b. ([] :: string) = a @ ds @ b \<and> wholeRun a ds b)
   \<and> minorPatch ''.2.3-alpine'' ''2'' ''3''
   \<and> strictNumber ''1'' \<and> strictNumber ''2'' \<and> strictNumber ''3''
   \<and> cleanVersionString ''v1.2.3-alpine'' = ''1.2.3''
   \<and> SemVer_new (cleanVersionString ''v1.2.3-alpine'') =
        Some \<lparr>major = 1, minor = 2, patch = 3, prerelease = []\<rparr>
   \<and> stripLeadingV ''22.04'' = [] @ ''22'' @ ''.04''
   \<and> wholeRun [] ''22'' ''.04'' \<and> minorPatch ''.04'' ''04'' ''0'' \<and> \<not> strictNumber ''04''
   \<and> cleanVersionString ''22.04'' = ''22.04''
   \<and> \<not> (\<exists>a ds b. stripLeadingV ''edge'' = a @ ds @ b \<and> wholeRun a ds b)
   \<and> cleanVersionString ''edge'' = ''edge''
   \<and> take 1 ''1.2'' \<noteq> ''v'' \<and> stripLeadingV ''1.2'' = ''1.2''"
proof -
  have nd: "list_all (\<lambda>c. \<not> is_digit c) ''edge''"
    by (simp add: is_digit_def)
  have n: "\<forall>a ds b. stripLeadingV ''edge'' = a @ ds @ b \<longrightarrow> \<not> wholeRun a ds b"
  proof (intro allI impI)
    fix a ds b assume "stripLeadingV ''edge'' = a @ ds @ b"
    then have "''edge'' = a @ ds @ b" by (simp add: stripLeadingV_def)
    from no_digit_no_run [OF nd this] show "\<not> wholeRun a ds b" .
  qed
  have e: "\<forall>a ds b. ([] :: string) = a @ ds @ b \<longrightarrow> \<not> wholeRun a ds b"
    by (simp add: wholeRun_def)
  have v: "stripLeadingV ''v1.2.3-alpine'' = [] @ ''1'' @ ''.2.3-alpine''"
    "stripLeadingV ''22.04'' = [] @ ''22'' @ ''.04''"
    by (simp_all add: stripLeadingV_def)
  have d: "nat_of_digits ''1'' = 1" "nat_of_digits ''2'' = 2" "nat_of_digits ''3'' = 3"
    by (simp_all add: nat_of_digits_def digit_val_def)
  from
    normalization_coerces [of "''v1.2.3-alpine''" "[]" "''1''" "''.2.3-alpine''" "''2''" "''3''"
      "''1.2''"]
    normalization_coerces [of "''22.04''" "[]" "''22''" "''.04''" "''04''" "''0''" "''1.2''"]
    normalization_coerces [of "''edge''" "[]" "''1''" "''.2.3-alpine''" "''2''" "''3''" "''1.2''"]
    n e v
  show ?thesis
    by (simp add: minorPatch_examples strictNumber_examples wholeRun_examples d parse_123
        stripLeadingV_def)
qed

text \<open>
  C2, as the specification has it, fails: \<open>1.2.3-alpine\<close> is a strict version with a
  prerelease, and normalization does not leave it unchanged.
\<close>

theorem normalization_drops_suffix:
  "semver_valid ''1.2.3-alpine''
   \<and> cleanVersionString ''1.2.3-alpine'' = ''1.2.3''
   \<and> cleanVersionString ''1.2.3-alpine'' \<noteq> ''1.2.3-alpine''"
  by (simp add: semver_valid_def parse_123_alpine clean_123_alpine)

section \<open>Properties: tag templates\<close>

lemma getSubstitution_plain:
  "CHR ''$'' \<notin> set replacement \<Longrightarrow> getSubstitution matched before after replacement = replacement"
  by (induction matched before after replacement rule: getSubstitution.induct) auto

lemma indexOf_Some:
  "indexOf pat s = Some i \<Longrightarrow>
     take (length pat) (drop i s) = pat \<and> (\<forall>j<i. take (length pat) (drop j s) \<noteq> pat)"
proof (induction s arbitrary: i)
  case Nil
  then show ?case by (auto split: if_splits)
next
  case (Cons c cs)
  show ?case
  proof (cases "take (length pat) (c # cs) = pat")
    case True
    with Cons.prems have "i = 0" by simp
    with True show ?thesis by simp
  next
    case False
    with Cons.prems obtain i' where i': "indexOf pat cs = Some i'" "i = Suc i'"
      by auto
    from Cons.IH [OF i'(1)] False i'(2) show ?thesis
      by (auto simp: less_Suc_eq_0_disj)
  qed
qed

text \<open>For a replacement text without a dollar sign the substitution is the plain one: the
  first occurrence of the pattern is replaced by the text, the rest of the string is kept,
  and a string without the pattern is unchanged.\<close>

lemma js_replace_plain:
  assumes "CHR ''$'' \<notin> set replacement"
  shows "(case indexOf pat t of
            None \<Rightarrow> js_replace pat replacement t = t
          | Some i \<Rightarrow>
              js_replace pat replacement t = take i t @ replacement @ drop (i + length pat) t
              \<and> t = take i t @ pat @ drop (i + length pat) t
              \<and> (\<forall>j<i. take (length pat) (drop j t) \<noteq> pat))"
proof (cases "indexOf pat t")
  case None
  then show ?thesis by (simp add: js_replace_def)
next
  case (Some i)
  from indexOf_Some [OF Some]
  have a: "take (length pat) (drop i t) = pat"
    and b: "\<forall>j<i. take (length pat) (drop j t) \<noteq> pat"
    by simp_all
  have "t = take i t @ (take (length pat) (drop i t) @ drop (length pat) (drop i t))"
    by (simp only: append_take_drop_id)
  then have "t = take i t @ pat @ drop (i + length pat) t"
    by (simp only: a drop_drop add.commute)
  with Some b assms show ?thesis
    by (simp add: js_replace_def getSubstitution_plain)
qed

lemma replace_examples:
  "js_replace ''{version}'' ''2.3.0'' ''{version}'' = ''2.3.0''"
  "js_replace ''{version}'' ''2.3.0'' ''latest'' = ''latest''"
  "js_replace ''{version}'' ''2.3.0'' ''{version}-{version}'' = ''2.3.0-{version}''"
  "js_replace ''{version}'' ''$&'' ''{version}'' = ''{version}''"
  "js_replace ''{version}'' ''$&'' ''latest'' = ''latest''"
  by (simp_all add: js_replace_def)

lemma default_builds:
  "(case builds getDefaultConfig of None \<Rightarrow> [] | Some bs \<Rightarrow> bs) =
     [\<lparr>BuildConfig.name = Some ''default'',
       BuildConfig.dockerfilePath = Some ''Dockerfile'',
       BuildConfig.contextPath = Some ''.'',
       BuildConfig.buildArgs = Some Map.empty,
       BuildConfig.tags = Some [''{version}'', ''latest'']\<rparr>]"
  by (simp add: getDefaultConfig_def)

lemma indexOf_None:
  "indexOf pat s = None \<Longrightarrow> take (length pat) (drop j s) \<noteq> pat"
proof (induction s arbitrary: j)
  case Nil
  then show ?case by (auto split: if_splits)
next
  case (Cons c cs)
  then show ?case by (cases j) (auto split: if_splits)
qed

lemma tags_matrixEntry:
  "tags (matrixEntry ver build baseImage) =
     map (js_replace ''{version}'' ver)
         (case BuildConfig.tags build of None \<Rightarrow> [''{version}''] | Some ts \<Rightarrow> ts)"
  by (simp add: matrixEntry_def)

section \<open>Properties: the cap on the number of versions\<close>







section \<open>Properties: sorting\<close>

text \<open>The binary search stays between its bounds.\<close>

lemma binarySearch_bounds:
  "left \<le> right \<Longrightarrow>
   left \<le> binarySearch c a p left right \<and> binarySearch c a p left right \<le> right"
proof (induction c a p left right rule: binarySearch.induct)
  case (1 c a pivot left right)
  show ?case
  proof (cases "left < right")
    case False
    with 1 show ?thesis by (simp add: binarySearch.simps)
  next
    case True
    define mid where "mid = left + (right - left) div 2"
    have m: "left \<le> mid" "mid < right" using True by (auto simp: mid_def)
    show ?thesis
    proof (cases "c pivot (a ! mid) < 0")
      case lt: True
      have "left \<le> binarySearch c a pivot left mid \<and> binarySearch c a pivot left mid \<le> mid"
        using "1.IH"(1) [OF True mid_def lt] m by simp
      moreover have "binarySearch c a pivot left right = binarySearch c a pivot left mid"
        using True lt by (subst binarySearch.simps) (simp add: mid_def Let_def)
      ultimately show ?thesis using m by simp
    next
      case ge: False
      have "mid + 1 \<le> binarySearch c a pivot (mid + 1) right
            \<and> binarySearch c a pivot (mid + 1) right \<le> right"
        using "1.IH"(2) [OF True mid_def ge] m by simp
      moreover have "binarySearch c a pivot left right = binarySearch c a pivot (mid + 1) right"
        using True ge by (subst binarySearch.simps) (simp add: mid_def Let_def)
      ultimately show ?thesis using m by simp
    qed
  qed
qed

lemma binarySearch_split:
  fixes f :: "'a \<Rightarrow> int"
  assumes "\<forall>i j. i \<le> j \<and> j < start \<longrightarrow> f (a ! i) \<le> f (a ! j)"
    and "\<forall>i<start. (c p (a ! i) < 0) = (f p < f (a ! i))"
  shows "left \<le> right \<Longrightarrow> right \<le> start \<Longrightarrow> \<forall>i<left. f (a ! i) \<le> f p \<Longrightarrow>
         \<forall>i. right \<le> i \<and> i < start \<longrightarrow> f p < f (a ! i) \<Longrightarrow>
         (\<forall>i<binarySearch c a p left right. f (a ! i) \<le> f p)
         \<and> (\<forall>i. binarySearch c a p left right \<le> i \<and> i < start \<longrightarrow> f p < f (a ! i))"
  using assms
proof (induction c a p left right rule: binarySearch.induct)
  case (1 c a pivot left right)
  show ?case
  proof (cases "left < right")
    case False
    with "1.prems" have "left = right" by simp
    with "1.prems" show ?thesis by (simp add: binarySearch.simps)
  next
    case True
    define mid where "mid = left + (right - left) div 2"
    have m: "left \<le> mid" "mid < right" "mid < start"
      using True "1.prems"(2) by (auto simp: mid_def)
    show ?thesis
    proof (cases "c pivot (a ! mid) < 0")
      case lt: True
      have e: "binarySearch c a pivot left right = binarySearch c a pivot left mid"
        using True lt by (subst binarySearch.simps) (simp add: mid_def Let_def)
      have k: "f pivot < f (a ! mid)"
        using lt "1.prems"(6) m(3) by simp
      have "\<forall>i. mid \<le> i \<and> i < start \<longrightarrow> f pivot < f (a ! i)"
      proof (intro allI impI)
        fix i assume "mid \<le> i \<and> i < start"
        then have "f (a ! mid) \<le> f (a ! i)" using "1.prems"(5) by simp
        with k show "f pivot < f (a ! i)" by simp
      qed
      with "1.IH"(1) [OF True mid_def lt m(1) _ "1.prems"(3) _ "1.prems"(5,6)] m
      show ?thesis unfolding e by simp
    next
      case ge: False
      have e: "binarySearch c a pivot left right = binarySearch c a pivot (mid + 1) right"
        using True ge by (subst binarySearch.simps) (simp add: mid_def Let_def)
      have k: "f (a ! mid) \<le> f pivot"
        using ge "1.prems"(6) m(3) by auto
      have "\<forall>i<mid + 1. f (a ! i) \<le> f pivot"
      proof (intro allI impI)
        fix i assume "i < mid + 1"
        then have "f (a ! i) \<le> f (a ! mid)" using "1.prems"(5) m(3) by simp
        with k show "f (a ! i) \<le> f pivot" by simp
      qed
      with "1.IH"(2) [OF True mid_def ge _ "1.prems"(2) _ "1.prems"(4,5,6)] m
      show ?thesis unfolding e by simp
    qed
  qed
qed

lemma insort_key_after:
  "insort_key f y (takeWhile (\<lambda>x. f x \<le> f p) s @ p # dropWhile (\<lambda>x. f x \<le> f p) s) =
     takeWhile (\<lambda>x. f x \<le> f p) (insort_key f y s) @ p
       # dropWhile (\<lambda>x. f x \<le> f p) (insort_key f y s)"
  by (induction s) auto

lemma sort_key_snoc:
  "sort_key f (ys @ [p]) =
     takeWhile (\<lambda>x. f x \<le> f p) (sort_key f ys) @ p # dropWhile (\<lambda>x. f x \<le> f p) (sort_key f ys)"
  by (induction ys) (simp_all add: insort_key_after)

lemma insort_key_last: "\<forall>y\<in>set s. f y < f x \<Longrightarrow> insort_key f x s = s @ [x]"
  by (induction s) auto

lemma sort_key_descending:
  "sorted_wrt (\<lambda>x y. f y < f x) r \<Longrightarrow> sort_key f r = rev r"
  by (induction r) (simp_all add: insort_key_last)


lemma countRun_le: "countRun c d previous rest \<le> length rest"
  by (induction rest arbitrary: previous) (auto simp: Let_def)

lemma countRun_ascending:
  fixes f :: "'a \<Rightarrow> int"
  assumes "\<forall>x\<in>set (previous # rest). \<forall>y\<in>set (previous # rest). (c x y < 0) = (f x < f y)"
  shows "sorted (map f (previous # take (countRun c False previous rest) rest))"
  using assms
proof (induction rest arbitrary: previous)
  case Nil
  show ?case by simp
next
  case (Cons current rest)
  show ?case
  proof (cases "c current previous < 0")
    case True
    then show ?thesis by simp
  next
    case False
    with Cons.prems have "f previous \<le> f current" by auto
    moreover have "sorted (map f (current # take (countRun c False current rest) rest))"
      using Cons.prems by (intro Cons.IH) auto
    ultimately show ?thesis using False by fastforce
  qed
qed

lemma countRun_descending:
  fixes f :: "'a \<Rightarrow> int"
  assumes "\<forall>x\<in>set (previous # rest). \<forall>y\<in>set (previous # rest). (c x y < 0) = (f x < f y)"
  shows "sorted_wrt (\<lambda>x y. f y < f x) (previous # take (countRun c True previous rest) rest)"
  using assms
proof (induction rest arbitrary: previous)
  case Nil
  show ?case by simp
next
  case (Cons current rest)
  show ?case
  proof (cases "c current previous < 0")
    case False
    then show ?thesis by simp
  next
    case True
    with Cons.prems have lt: "f current < f previous" by auto
    have ih: "sorted_wrt (\<lambda>x y. f y < f x) (current # take (countRun c True current rest) rest)"
      using Cons.prems by (intro Cons.IH) auto
    then have "\<forall>y\<in>set (take (countRun c True current rest) rest). f y < f previous"
      using lt by auto
    with ih lt True show ?thesis by simp
  qed
qed

lemma slideIn_permutes:
  assumes "k \<le> start" and "start < length a"
  shows "count_list (slideIn a k start) x = count_list a x"
    and "length (slideIn a k start) = length a"
proof -
  have "take k a @ drop k (take start a) = take start a"
    using assms(1) by (metis append_take_drop_id min.absorb1 take_take)
  then have "take k a @ drop k (take start a) @ a ! start # drop (Suc start) a
             = take start a @ a ! start # drop (Suc start) a"
    by (simp only: append_assoc [symmetric])
  then have a: "a = take k a @ drop k (take start a) @ a ! start # drop (Suc start) a"
    using id_take_nth_drop [OF assms(2)] by simp
  have "count_list (slideIn a k start) x
        = count_list (take k a @ drop k (take start a) @ a ! start # drop (Suc start) a) x"
    by (simp add: slideIn_def)
  with a show "count_list (slideIn a k start) x = count_list a x" by simp
  have "length (slideIn a k start)
        = length (take k a @ drop k (take start a) @ a ! start # drop (Suc start) a)"
    by (simp add: slideIn_def)
  with a show "length (slideIn a k start) = length a" by simp
qed

lemma binaryInsertionSort_permutes:
  "high \<le> length a \<Longrightarrow>
   count_list (binaryInsertionSort c a start high) x = count_list a x
   \<and> length (binaryInsertionSort c a start high) = length a"
proof (induction c a start high rule: binaryInsertionSort.induct)
  case (1 c a start high)
  show ?case
  proof (cases "start < high")
    case False
    then show ?thesis by (simp add: binaryInsertionSort.simps)
  next
    case True
    define k where "k = binarySearch c a (a ! start) 0 start"
    have k: "k \<le> start" using binarySearch_bounds [of 0 start c a "a ! start"] by (simp add: k_def)
    have s: "start < length a" using True "1.prems" by simp
    have e: "binaryInsertionSort c a start high =
             binaryInsertionSort c (slideIn a k start) (Suc start) high"
      using True by (subst binaryInsertionSort.simps) (simp add: k_def)
    from "1.IH" [OF True] "1.prems" slideIn_permutes [OF k s]
    show ?thesis unfolding e k_def by simp
  qed
qed

lemma countAndMakeRun_permutes:
  "count_list (snd (countAndMakeRun c a)) x = count_list a x
   \<and> length (snd (countAndMakeRun c a)) = length a"
proof -
  have "count_list (rev (take n a) @ drop n a) x = count_list a x" for n
    by (metis append_take_drop_id count_list_append count_list_rev)
  moreover have "length (rev (take n a) @ drop n a) = length a" for n
    by simp
  moreover have "snd (countAndMakeRun c a) = a
      \<or> (\<exists>n. snd (countAndMakeRun c a) = rev (take n a) @ drop n a)"
  proof (cases a)
    case Nil
    then show ?thesis by (simp add: countAndMakeRun_def)
  next
    case (Cons x xs)
    show ?thesis
    proof (cases xs)
      case Nil
      with Cons show ?thesis by (simp add: countAndMakeRun_def)
    next
      case (Cons y ys)
      with \<open>a = x # xs\<close> have "snd (countAndMakeRun c a) =
          (if c y x < 0 then rev (take (2 + countRun c True y ys) a) @ drop (2 + countRun c True y ys) a
           else a)"
        by (simp add: countAndMakeRun_def Let_def)
      then show ?thesis by (cases "c y x < 0") auto
    qed
  qed
  ultimately show ?thesis by auto
qed

lemma sortShort_permutes:
  "count_list (sortShort c xs) x = count_list xs x \<and> length (sortShort c xs) = length xs"
proof -
  obtain n a where r: "countAndMakeRun c xs = (n, a)" by (cases "countAndMakeRun c xs")
  with countAndMakeRun_permutes [of c xs]
  have a: "count_list a x = count_list xs x" "length a = length xs" by simp_all
  show ?thesis
    using a binaryInsertionSort_permutes [of "length xs" a c n x]
    by (simp add: sortShort_def r)
qed


lemma slideIn_sorted_prefix:
  fixes f :: "'a \<Rightarrow> int"
  assumes inv: "a = sort_key f (take start xs) @ drop start xs"
    and st: "start < length xs"
    and key: "\<forall>x\<in>set xs. \<forall>y\<in>set xs. (c x y < 0) = (f x < f y)"
  shows "slideIn a (binarySearch c a (a ! start) 0 start) start
         = sort_key f (take (Suc start) xs) @ drop (Suc start) xs"
proof -
  define pre where "pre = sort_key f (take start xs)"
  define p where "p = xs ! start"
  define k where "k = binarySearch c a (a ! start) 0 start"
  have lp: "length pre = start" using st by (simp add: pre_def)
  have a: "a = pre @ drop start xs" using inv by (simp add: pre_def)
  have ap: "a ! start = p"
    using st lp by (simp add: a p_def nth_append)
  have nth: "a ! i = pre ! i" if "i < start" for i
    using that lp by (simp add: a nth_append)
  have setpre: "set pre \<subseteq> set xs"
    by (auto simp: pre_def dest: in_set_takeD)
  have pin: "p \<in> set xs" using st by (simp add: p_def)
  have srt: "sorted (map f pre)" by (simp add: pre_def)
  have mono: "\<forall>i j. i \<le> j \<and> j < start \<longrightarrow> f (a ! i) \<le> f (a ! j)"
  proof (intro allI impI)
    fix i j assume ij: "i \<le> j \<and> j < start"
    then have "map f pre ! i \<le> map f pre ! j"
      using srt lp by (intro sorted_nth_mono) simp_all
    with ij lp show "f (a ! i) \<le> f (a ! j)" by (simp add: nth)
  qed
  have cmp: "\<forall>i<start. (c p (a ! i) < 0) = (f p < f (a ! i))"
  proof (intro allI impI)
    fix i assume i: "i < start"
    then have "pre ! i \<in> set xs" using setpre lp by (metis nth_mem subsetD)
    with key pin i show "(c p (a ! i) < 0) = (f p < f (a ! i))" by (simp add: nth)
  qed
  have kb: "k \<le> start"
    using binarySearch_bounds [of 0 start c a "a ! start"] by (simp add: k_def)
  from mono cmp
    binarySearch_split [where f = f and a = a and start = start and c = c and p = p
      and left = 0 and right = start]
  have lo: "\<forall>i<k. f (a ! i) \<le> f p" and hi: "\<forall>i. k \<le> i \<and> i < start \<longrightarrow> f p < f (a ! i)"
    by (simp_all add: k_def ap)
  have tw: "takeWhile (\<lambda>x. f x \<le> f p) pre = take k pre"
  proof (rule takeWhile_eq_take_P_nth)
    fix i assume "i < k" "i < length pre"
    with lo lp show "f (pre ! i) \<le> f p" using nth by auto
  next
    assume "k < length pre"
    with hi lp have "f p < f (pre ! k)" using nth [of k] by auto
    then show "\<not> f (pre ! k) \<le> f p" by simp
  qed
  have dw: "dropWhile (\<lambda>x. f x \<le> f p) pre = drop k pre"
    using kb lp by (subst dropWhile_eq_drop) (simp add: tw)
  have "slideIn a k start = take k pre @ p # drop k pre @ drop (Suc start) xs"
    using kb lp ap by (simp add: slideIn_def a)
  also have "\<dots> = sort_key f (take start xs @ [p]) @ drop (Suc start) xs"
    by (simp add: sort_key_snoc tw dw pre_def [symmetric])
  also have "take start xs @ [p] = take (Suc start) xs"
    using st by (simp add: p_def take_Suc_conv_app_nth)
  finally show ?thesis by (simp add: k_def)
qed

lemma binaryInsertionSort_sorts:
  fixes f :: "'a \<Rightarrow> int"
  assumes key: "\<forall>x\<in>set xs. \<forall>y\<in>set xs. (c x y < 0) = (f x < f y)"
  shows "a = sort_key f (take start xs) @ drop start xs \<Longrightarrow> start \<le> length xs \<Longrightarrow>
         binaryInsertionSort c a start (length xs) = sort_key f xs"
proof (induction "length xs - start" arbitrary: a start)
  case 0
  then have "start = length xs" by simp
  with 0 show ?case by (simp add: binaryInsertionSort.simps)
next
  case (Suc d)
  then have st: "start < length xs" by simp
  have e: "binaryInsertionSort c a start (length xs) =
           binaryInsertionSort c (slideIn a (binarySearch c a (a ! start) 0 start) start)
             (Suc start) (length xs)"
    using st by (subst binaryInsertionSort.simps) simp
  have "d = length xs - Suc start" using Suc.hyps(2) by simp
  from Suc.hyps(1) [OF this slideIn_sorted_prefix [OF Suc.prems(1) st key]] st
  show ?case unfolding e by simp
qed

lemma countAndMakeRun_sorted_prefix:
  fixes f :: "'a \<Rightarrow> int"
  assumes key: "\<forall>x\<in>set xs. \<forall>y\<in>set xs. (c x y < 0) = (f x < f y)"
    and r: "countAndMakeRun c xs = (n, a)"
  shows "n \<le> length xs \<and> a = sort_key f (take n xs) @ drop n xs"
proof (cases xs)
  case Nil
  with r show ?thesis by (simp add: countAndMakeRun_def)
next
  case (Cons x ys)
  show ?thesis
  proof (cases ys)
    case Nil
    with Cons r show ?thesis by (auto simp: countAndMakeRun_def)
  next
    case (Cons y zs)
    with \<open>xs = x # ys\<close> have xs: "xs = x # y # zs" by simp
    define m where "m = countRun c (c y x < 0) y zs"
    have n: "n = 2 + m" and a: "a = (if c y x < 0 then rev (take n xs) @ drop n xs else xs)"
      using r by (auto simp: xs countAndMakeRun_def Let_def m_def)
    have le: "m \<le> length zs" by (simp add: m_def countRun_le)
    have tk: "take n xs = x # y # take m zs" by (simp add: n xs)
    have key': "\<forall>u\<in>set (y # zs). \<forall>v\<in>set (y # zs). (c u v < 0) = (f u < f v)"
      using key by (simp add: xs)
    have yx: "(c y x < 0) = (f y < f x)" using key by (simp add: xs)
    show ?thesis
    proof (cases "c y x < 0")
      case True
      from countRun_descending [OF key'] True
      have "sorted_wrt (\<lambda>u v. f v < f u) (y # take m zs)" by (simp add: m_def)
      with True yx have "sorted_wrt (\<lambda>u v. f v < f u) (take n xs)"
        by (auto simp: tk)
      then have "sort_key f (take n xs) = rev (take n xs)" by (rule sort_key_descending)
      with a True le show ?thesis by (simp add: n xs)
    next
      case False
      from countRun_ascending [OF key'] False
      have "sorted (map f (y # take m zs))" by (simp add: m_def)
      with False yx have "sorted (map f (take n xs))" by (auto simp: tk)
      then have "sort_key f (take n xs) = take n xs" by (rule sort_key_id_if_sorted)
      with a False le show ?thesis by (simp add: n xs)
    qed
  qed
qed

lemma sortShort_keyed:
  assumes "keyed c f xs"
  shows "sortShort c xs = sort_key f xs"
proof -
  have key: "\<forall>x\<in>set xs. \<forall>y\<in>set xs. (c x y < 0) = (f x < f y)"
    using assms by (simp add: keyed_def)
  obtain n a where r: "countAndMakeRun c xs = (n, a)" by (cases "countAndMakeRun c xs")
  from countAndMakeRun_sorted_prefix [OF key r]
  have n: "n \<le> length xs" and a: "a = sort_key f (take n xs) @ drop n xs" by simp_all
  show ?thesis
  proof (cases "n < length xs")
    case True
    with binaryInsertionSort_sorts [OF key a n] show ?thesis by (simp add: sortShort_def r)
  next
    case False
    with n a show ?thesis by (simp add: sortShort_def r)
  qed
qed


lemma count_list_length:
  assumes "\<forall>x. count_list xs x = count_list ys x"
  shows "length xs = length ys"
proof -
  have "length xs = sum (count_list xs) (set xs \<union> set ys)"
    by (rule sum_count_set [symmetric]) simp_all
  also have "\<dots> = sum (count_list ys) (set xs \<union> set ys)"
    using assms by simp
  also have "\<dots> = length ys"
    by (rule sum_count_set) simp_all
  finally show ?thesis .
qed

lemma count_list_set:
  assumes "\<forall>x. count_list xs x = count_list ys x"
  shows "set xs = set ys"
  using assms count_list_0_iff [of xs] count_list_0_iff [of ys] by auto

text \<open>The sort permutes the tags; for an array of 64 tags or more this is what the
  environment is asked to do.\<close>

lemma js_sort_permutes:
  assumes "length xs < 64 \<or> conformingSort E"
  shows "\<forall>x. count_list (js_sort E c xs) x = count_list xs x"
proof (cases "length xs < 64")
  case True
  then show ?thesis by (simp add: js_sort_def sortShort_permutes)
next
  case False
  with assms have "conformingSort E" by simp
  then have "\<forall>x. count_list (sortLong E c xs) x = count_list xs x"
    by (simp add: conformingSort_def)
  with False show ?thesis by (simp add: js_sort_def)
qed

lemma length_js_sort:
  "length xs < 64 \<or> conformingSort E \<Longrightarrow> length (js_sort E c xs) = length xs"
  by (intro count_list_length js_sort_permutes)

lemma set_js_sort:
  "length xs < 64 \<or> conformingSort E \<Longrightarrow> set (js_sort E c xs) = set xs"
  by (intro count_list_set js_sort_permutes)

lemma js_sort_eq_Nil:
  "length xs < 64 \<or> conformingSort E \<Longrightarrow> js_sort E c xs = [] \<longleftrightarrow> xs = []"
  using length_js_sort [of xs E c] by auto

text \<open>When the comparison function orders the tags as an integer key does, the sort is the
  library's stable sort by that key.\<close>

lemma js_sort_keyed:
  assumes "length xs < 64 \<or> conformingSort E" and "keyed c f xs"
  shows "js_sort E c xs = sort_key f xs"
proof (cases "length xs < 64")
  case True
  show ?thesis
  proof (cases "length xs < 2")
    case True
    then have "sort_key f xs = xs"
      by (cases xs) (simp_all add: Suc_lessI)
    with True show ?thesis by (simp add: js_sort_def)
  next
    case False
    with \<open>length xs < 64\<close> assms(2) show ?thesis
      by (simp add: js_sort_def sortShort_keyed)
  qed
next
  case False
  with assms have "sortLong E c xs = sort_key f xs"
    by (simp add: conformingSort_def)
  with False show ?thesis by (simp add: js_sort_def)
qed

lemma conformingSort_exampleEnv: "conformingSort exampleEnv"
  by (simp add: conformingSort_def exampleEnv_def sortShort_permutes sortShort_keyed)

text \<open>The steps of the search and of the insertion, for evaluating the sort on given tags.\<close>

lemma binarySearch_left:
  "left < right \<Longrightarrow> c pivot (a ! (left + (right - left) div 2)) < 0 \<Longrightarrow>
   binarySearch c a pivot left right = binarySearch c a pivot left (left + (right - left) div 2)"
  by (subst binarySearch.simps) (simp add: Let_def)

lemma binarySearch_right:
  "left < right \<Longrightarrow> \<not> c pivot (a ! (left + (right - left) div 2)) < 0 \<Longrightarrow>
   binarySearch c a pivot left right
     = binarySearch c a pivot (left + (right - left) div 2 + 1) right"
  by (subst binarySearch.simps) (simp add: Let_def)

lemma binarySearch_found: "\<not> left < right \<Longrightarrow> binarySearch c a pivot left right = left"
  by (subst binarySearch.simps) simp

lemma binaryInsertionSort_step:
  "start < high \<Longrightarrow>
   binaryInsertionSort c a start high =
     binaryInsertionSort c (slideIn a (binarySearch c a (a ! start) 0 start) start) (Suc start) high"
  by (subst binaryInsertionSort.simps) simp

lemma binaryInsertionSort_end: "\<not> start < high \<Longrightarrow> binaryInsertionSort c a start high = a"
  by (subst binaryInsertionSort.simps) simp

lemmas sort_eval =
  binarySearch_left binarySearch_right binarySearch_found binaryInsertionSort_step
  binaryInsertionSort_end slideIn_def

section \<open>Properties: the latest strategy\<close>

lemma compare_timed:
  "timeOf E a = Some ta \<Longrightarrow> timeOf E b = Some tb \<Longrightarrow> compareLastUpdated E a b = tb - ta"
  by (auto simp: timeOf_def compareLastUpdated_def noLastUpdated_def
      split: option.splits if_splits)

lemma compare_untimed:
  "noLastUpdated a \<or> noLastUpdated b \<Longrightarrow> compareLastUpdated E a b = 0"
  by (simp add: compareLastUpdated_def)

text \<open>When every tag has a time stamp, the comparison function orders the tags as the
  negated time stamp does; when every comparison is a tie, as a constant does.\<close>

lemma keyed_timed:
  assumes "\<forall>u\<in>set tgs. timeOf E u = Some (tm u)"
  shows "keyed (compareLastUpdated E) (\<lambda>u. - tm u) tgs"
  unfolding keyed_def
proof (intro ballI)
  fix a b assume "a \<in> set tgs" "b \<in> set tgs"
  with assms have "compareLastUpdated E a b = tm b - tm a"
    by (simp add: compare_timed)
  then show "(compareLastUpdated E a b < 0) = (- tm a < - tm b)
             \<and> (0 < compareLastUpdated E a b) = (- tm b < - tm a)"
    by auto
qed

lemma keyed_ties:
  "\<forall>x\<in>set tgs. \<forall>y\<in>set tgs. c x y = 0 \<Longrightarrow> keyed c (\<lambda>u. 0) tgs"
  by (simp add: keyed_def)

lemma sort_key_constant: "sort_key (\<lambda>u. 0 :: int) xs = xs"
  by (rule sort_key_id_if_sorted) (induction xs, simp_all)

text \<open>The first element of a stable sort is the first element of the list among those
  with the least key.\<close>

lemma hd_insort_key:
  "hd (insort_key f x ys) = (if ys = [] \<or> f x \<le> f (hd ys) then x else hd ys)"
  by (cases ys) auto

lemma hd_sort_key:
  fixes f :: "'a \<Rightarrow> int"
  assumes "xs \<noteq> []"
  shows "\<exists>pre t post. xs = pre @ t # post \<and> hd (sort_key f xs) = t
           \<and> (\<forall>u\<in>set pre. f t < f u) \<and> (\<forall>u\<in>set post. f t \<le> f u)"
  using assms
proof (induction xs)
  case Nil
  then show ?case by simp
next
  case (Cons x xs)
  show ?case
  proof (cases "xs = []")
    case True
    then have "x # xs = [] @ x # [] \<and> hd (sort_key f (x # xs)) = x"
      by simp
    then show ?thesis by (metis empty_iff empty_set)
  next
    case False
    with Cons obtain pre t post where d: "xs = pre @ t # post"
      and h: "hd (sort_key f xs) = t"
      and lt: "\<forall>u\<in>set pre. f t < f u" and le: "\<forall>u\<in>set post. f t \<le> f u"
      by auto
    have ne: "sort_key f xs \<noteq> []"
      using False by (metis length_0_conv length_sort)
    show ?thesis
    proof (cases "f x \<le> f t")
      case True
      then have "hd (sort_key f (x # xs)) = x"
        using ne h by (simp add: hd_insort_key)
      moreover have "\<forall>u\<in>set xs. f x \<le> f u"
        using d lt le True by fastforce
      ultimately have "x # xs = [] @ x # xs \<and> hd (sort_key f (x # xs)) = x
          \<and> (\<forall>u\<in>set []. f x < f u) \<and> (\<forall>u\<in>set xs. f x \<le> f u)"
        by simp
      then show ?thesis by blast
    next
      case False
      then have "hd (sort_key f (x # xs)) = t"
        using ne h by (simp add: hd_insort_key)
      moreover have "\<forall>u\<in>set (x # pre). f t < f u"
        using lt False by simp
      ultimately have "x # xs = (x # pre) @ t # post \<and> hd (sort_key f (x # xs)) = t
          \<and> (\<forall>u\<in>set (x # pre). f t < f u) \<and> (\<forall>u\<in>set post. f t \<le> f u)"
        using d le by simp
      then show ?thesis by blast
    qed
  qed
qed

text \<open>With a time stamp on every tag, the first of the sorted tags is the first tag of the
  list among those with the greatest time stamp.\<close>

lemma latest_is_first_maximum:
  assumes "length tgs < 64 \<or> conformingSort E"
    and "\<forall>u\<in>set tgs. timeOf E u = Some (tm u)" and "tgs \<noteq> []"
  shows "\<exists>pre t post. tgs = pre @ t # post
           \<and> hd (js_sort E (compareLastUpdated E) tgs) = t
           \<and> (\<forall>u\<in>set pre. tm u < tm t) \<and> (\<forall>u\<in>set post. tm u \<le> tm t)"
proof -
  have "js_sort E (compareLastUpdated E) tgs = sort_key (\<lambda>u. - tm u) tgs"
    using assms(1) keyed_timed [OF assms(2)] by (rule js_sort_keyed)
  with hd_sort_key [OF assms(3), of "\<lambda>u. - tm u"] show ?thesis by simp
qed

lemma filterVersions_latest:
  "filterVersions E tgs ''latest'' rng mv
     = Inr (map DockerTag.name (take 1 (js_sort E (compareLastUpdated E) tgs)))"
proof -
  have "applyMaxVersions mv (take 1 xs) = take 1 xs" for xs :: "DockerTag list"
  proof (cases mv)
    case None
    then show ?thesis by (simp add: applyMaxVersions_def)
  next
    case (Some n)
    have "min (nat n) 1 = 1" if "0 < n"
      using that by simp
    with Some show ?thesis by (simp add: applyMaxVersions_def)
  qed
  then show ?thesis
    by (simp add: filterVersions_def getLatestVersions_def)
qed

text \<open>The sort evaluated: three tags with time stamps, two of them equal; and four tags of
  which the third has no time stamp.\<close>

lemma compare_examples:
  "compareLastUpdated exampleEnv stableTag rcTag < 0"
  "compareLastUpdated exampleEnv (stableTag\<lparr>DockerTag.name := ''edge''\<rparr>) stableTag = 0"
  "compareLastUpdated exampleEnv (stableTag\<lparr>DockerTag.name := ''edge''\<rparr>) rcTag < 0"
  "compareLastUpdated exampleEnv tag110 tag100 < 0"
  "compareLastUpdated exampleEnv tag120 tag110 = 0"
  "compareLastUpdated exampleEnv tag120 tag100 = 0"
  "compareLastUpdated exampleEnv tag130 tag100 < 0"
  "compareLastUpdated exampleEnv tag130 tag110 < 0"
  "compareLastUpdated exampleEnv tag120 tag130 = 0"
  "compareLastUpdated exampleEnv tag130 tag120 = 0"
  by (simp_all add: compareLastUpdated_def noLastUpdated_def exampleEnv_def rcTag_def
      stableTag_def tag100_def tag110_def tag120_def tag130_def)

lemma sort_three_timed:
  "js_sort exampleEnv (compareLastUpdated exampleEnv)
     [rcTag, stableTag, stableTag\<lparr>DockerTag.name := ''edge''\<rparr>]
   = [stableTag, stableTag\<lparr>DockerTag.name := ''edge''\<rparr>, rcTag]"
proof -
  let ?c = "compareLastUpdated exampleEnv"
  let ?edge = "stableTag\<lparr>DockerTag.name := ''edge''\<rparr>"
  have r: "countAndMakeRun ?c [rcTag, stableTag, ?edge] = (2, [stableTag, rcTag, ?edge])"
    by (simp add: countAndMakeRun_def compare_examples)
  have b: "binarySearch ?c [stableTag, rcTag, ?edge] ?edge 0 2 = 1"
    by (simp add: sort_eval compare_examples)
  have "binaryInsertionSort ?c [stableTag, rcTag, ?edge] 2 3 = [stableTag, ?edge, rcTag]"
    by (simp add: binaryInsertionSort_step b binaryInsertionSort_end slideIn_def)
  with r show ?thesis by (simp add: js_sort_def sortShort_def eval_nat_numeral)
qed

lemma sort_mixed:
  "js_sort exampleEnv (compareLastUpdated exampleEnv) [tag100, tag110, tag120, tag130]
   = [tag130, tag110, tag100, tag120]"
proof -
  let ?c = "compareLastUpdated exampleEnv"
  have r: "countAndMakeRun ?c [tag100, tag110, tag120, tag130]
           = (2, [tag110, tag100, tag120, tag130])"
    by (simp add: countAndMakeRun_def compare_examples)
  have b1: "binarySearch ?c [tag110, tag100, tag120, tag130] tag120 0 2 = 2"
    by (simp add: sort_eval compare_examples)
  have b2: "binarySearch ?c [tag110, tag100, tag120, tag130] tag130 0 3 = 0"
    by (simp add: sort_eval compare_examples)
  have s1: "binaryInsertionSort ?c [tag110, tag100, tag120, tag130] 2 4
            = binaryInsertionSort ?c [tag110, tag100, tag120, tag130] 3 4"
    by (simp add: binaryInsertionSort_step b1 slideIn_def)
  have s2: "binaryInsertionSort ?c [tag110, tag100, tag120, tag130] 3 4
            = [tag130, tag110, tag100, tag120]"
    by (simp add: binaryInsertionSort_step b2 binaryInsertionSort_end slideIn_def)
  from r s1 s2 show ?thesis by (simp add: js_sort_def sortShort_def eval_nat_numeral)
qed

text \<open>
  C6, as the code has it. The latest strategy returns at most one name, and none only for
  the empty tag list: the name of the tag that \<^verbatim>\<open>Array.prototype.sort\<close> puts first under
  the comparison function ``\<^verbatim>\<open>lastUpdated\<close> descending, a comparison with a tag that lacks
  a time stamp a tie''. When every tag carries a time stamp that parses, the sort is the
  stable sort by descending time stamp, and the tag selected is the first tag of the list
  among those with the greatest time stamp: every tag before it is older, no tag after it
  is newer. When all comparisons are ties the order of the list is kept and its first tag
  selected. This holds for every list of fewer than 64 tags, and for a longer one when the
  engine's sort does what ECMAScript asks of it.
\<close>

theorem latest_strategy:
  "(length tgs < 64 \<or> conformingSort E \<longrightarrow>
      (\<exists>vs. filterVersions E tgs ''latest'' rng mv = Inr vs \<and> length vs \<le> 1
           \<and> (vs = [] \<longleftrightarrow> tgs = [])
           \<and> vs = map DockerTag.name (take 1 (js_sort E (compareLastUpdated E) tgs))
           \<and> set vs \<subseteq> set (map DockerTag.name tgs))
      \<and> (list_all (\<lambda>u. timeOf E u = Some (tm u)) tgs \<longrightarrow>
           js_sort E (compareLastUpdated E) tgs = sort_key (\<lambda>u. - tm u) tgs
           \<and> (tgs \<noteq> [] \<longrightarrow>
                (\<exists>pre t post. tgs = pre @ t # post
                   \<and> filterVersions E tgs ''latest'' rng mv = Inr [DockerTag.name t]
                   \<and> (\<forall>u\<in>set pre. tm u < tm t) \<and> (\<forall>u\<in>set post. tm u \<le> tm t))))
      \<and> (list_all (\<lambda>x. list_all (\<lambda>y. compareLastUpdated E x y = 0) tgs) tgs \<longrightarrow>
           js_sort E (compareLastUpdated E) tgs = tgs
           \<and> filterVersions E tgs ''latest'' rng mv = Inr (map DockerTag.name (take 1 tgs))))
   \<and> (noLastUpdated a \<or> noLastUpdated b \<longrightarrow> compareLastUpdated E a b = 0)"
proof -
  let ?sorted = "js_sort E (compareLastUpdated E) tgs"
  have r: "filterVersions E tgs ''latest'' rng mv = Inr (map DockerTag.name (take 1 ?sorted))"
    by (rule filterVersions_latest)
  have first: "\<exists>vs. filterVersions E tgs ''latest'' rng mv = Inr vs \<and> length vs \<le> 1
         \<and> (vs = [] \<longleftrightarrow> tgs = [])
         \<and> vs = map DockerTag.name (take 1 ?sorted)
         \<and> set vs \<subseteq> set (map DockerTag.name tgs)"
    if c: "length tgs < 64 \<or> conformingSort E"
  proof -
    have e: "take 1 ?sorted = [] \<longleftrightarrow> tgs = []"
      using js_sort_eq_Nil [OF c] by simp
    have "set (take 1 ?sorted) \<subseteq> set tgs"
      using set_js_sort [OF c, of "compareLastUpdated E"] set_take_subset [of 1 ?sorted] by simp
    then have "set (map DockerTag.name (take 1 ?sorted)) \<subseteq> set (map DockerTag.name tgs)"
      by auto
    with r e show ?thesis by simp
  qed
  have timed: "?sorted = sort_key (\<lambda>u. - tm u) tgs
        \<and> (tgs \<noteq> [] \<longrightarrow>
             (\<exists>pre t post. tgs = pre @ t # post
                \<and> filterVersions E tgs ''latest'' rng mv = Inr [DockerTag.name t]
                \<and> (\<forall>u\<in>set pre. tm u < tm t) \<and> (\<forall>u\<in>set post. tm u \<le> tm t)))"
    if c: "length tgs < 64 \<or> conformingSort E"
      and all: "list_all (\<lambda>u. timeOf E u = Some (tm u)) tgs"
  proof -
    have b: "\<forall>u\<in>set tgs. timeOf E u = Some (tm u)"
      using all by (simp add: list_all_iff)
    have "\<exists>pre t post. tgs = pre @ t # post
                \<and> filterVersions E tgs ''latest'' rng mv = Inr [DockerTag.name t]
                \<and> (\<forall>u\<in>set pre. tm u < tm t) \<and> (\<forall>u\<in>set post. tm u \<le> tm t)"
      if ne: "tgs \<noteq> []"
    proof -
      from latest_is_first_maximum [OF c b ne]
      obtain pre t post where d: "tgs = pre @ t # post" and h: "hd ?sorted = t"
        and o: "\<forall>u\<in>set pre. tm u < tm t" "\<forall>u\<in>set post. tm u \<le> tm t"
        by blast
      have "?sorted \<noteq> []" using ne js_sort_eq_Nil [OF c] by simp
      then have "take 1 ?sorted = [t]"
        using h by (cases ?sorted) auto
      with r d o show ?thesis by auto
    qed
    with js_sort_keyed [OF c keyed_timed [OF b]] show ?thesis by blast
  qed
  have ties: "?sorted = tgs
        \<and> filterVersions E tgs ''latest'' rng mv = Inr (map DockerTag.name (take 1 tgs))"
    if c: "length tgs < 64 \<or> conformingSort E"
      and all: "list_all (\<lambda>x. list_all (\<lambda>y. compareLastUpdated E x y = 0) tgs) tgs"
  proof -
    have "keyed (compareLastUpdated E) (\<lambda>u. 0) tgs"
      using all by (intro keyed_ties) (simp add: list_all_iff)
    from js_sort_keyed [OF c this] have "?sorted = tgs"
      by (simp add: sort_key_constant)
    with r show ?thesis by simp
  qed
  have untimed: "compareLastUpdated E a b = 0" if "noLastUpdated a \<or> noLastUpdated b"
    using that by (rule compare_untimed)
  from first timed ties untimed show ?thesis by blast
qed

theorem latest_strategy_witness:
  "(length [rcTag, stableTag, stableTag\<lparr>DockerTag.name := ''edge''\<rparr>] < 64
      \<or> conformingSort exampleEnv)
   \<and> conformingSort exampleEnv
   \<and> list_all (\<lambda>u. timeOf exampleEnv u =
                   Some (if DockerTag.name u = ''rc'' then 1704067200000 else 1717200000000))
            [rcTag, stableTag, stableTag\<lparr>DockerTag.name := ''edge''\<rparr>]
   \<and> filterVersions exampleEnv [rcTag, stableTag, stableTag\<lparr>DockerTag.name := ''edge''\<rparr>]
        ''latest'' None None = Inr [''stable'']
   \<and> list_all (\<lambda>x. list_all (\<lambda>y. compareLastUpdated exampleEnv x y = 0) [betaTag, rcTag])
               [betaTag, rcTag]
   \<and> filterVersions exampleEnv [betaTag, rcTag] ''latest'' None None = Inr [''beta'']
   \<and> noLastUpdated betaTag \<and> compareLastUpdated exampleEnv betaTag stableTag = 0"
  using
    latest_strategy [of "[rcTag, stableTag, stableTag\<lparr>DockerTag.name := ''edge''\<rparr>]"
      exampleEnv None None
      "\<lambda>u. if DockerTag.name u = ''rc'' then 1704067200000 else 1717200000000"
      betaTag stableTag]
    latest_strategy [of "[betaTag, rcTag]" exampleEnv None None "\<lambda>u. 0" betaTag stableTag]
    conformingSort_exampleEnv
  by (simp add: timeOf_def exampleEnv_def rcTag_def stableTag_def betaTag_def
      filterVersions_latest sort_three_timed [unfolded rcTag_def stableTag_def exampleEnv_def]
      compareLastUpdated_def noLastUpdated_def)

text \<open>
  C6, as the specification has it, fails where dated and undated tags mix: the comparison
  function is then no ordering, and a tie is not kept in the order of the list. Of four
  tags, the third without a time stamp and the fourth the newest, the strategy selects the
  fourth, \<open>1.3.0\<close>: it has moved in front of \<open>1.2.0\<close>, which stood before it and with which
  its comparison is a tie.
\<close>

theorem latest_tie_not_kept:
  "noLastUpdated tag120
   \<and> compareLastUpdated exampleEnv tag120 tag130 = 0
   \<and> compareLastUpdated exampleEnv tag130 tag120 = 0
   \<and> js_sort exampleEnv (compareLastUpdated exampleEnv) [tag100, tag110, tag120, tag130]
       = [tag130, tag110, tag100, tag120]
   \<and> filterVersions exampleEnv [tag100, tag110, tag120, tag130] ''latest'' None None
       = Inr [''1.3.0'']"
  by (simp add: filterVersions_latest sort_mixed compare_examples)
     (simp add: noLastUpdated_def tag120_def tag130_def)

section \<open>Properties: the fallback\<close>

lemma merge_keeps_builds:
  "builds (mergeConfigWithVersionRange config versionRange) = builds config"
  by (simp add: mergeConfigWithVersionRange_def)

lemma buildMatrix_single:
  "buildMatrix [ver] config baseImage =
     map (\<lambda>build. matrixEntry ver build baseImage)
         (case builds config of None \<Rightarrow> [] | Some bs \<Rightarrow> bs)"
  by (simp add: buildMatrix_concat)

lemma run_fallback:
  assumes "length allTags < 64 \<or> conformingSort E"
    and "loadConfig configFile = Inr loaded" and "allTags \<noteq> []"
    and "filterSemanticVersionTags allTags = []"
  shows "\<exists>t ts. js_sort E (compareLastUpdated E) allTags = t # ts
           \<and> getLatestTag E allTags = Some t
           \<and> run E baseImage versionRange configFile allTags =
               Inr (map (\<lambda>build. matrixEntry (DockerTag.name t) build baseImage)
                        (case builds loaded of None \<Rightarrow> [] | Some bs \<Rightarrow> bs))"
proof -
  obtain t ts where s: "js_sort E (compareLastUpdated E) allTags = t # ts"
    using assms(3) js_sort_eq_Nil [OF assms(1), of "compareLastUpdated E"]
    by (cases "js_sort E (compareLastUpdated E) allTags") auto
  then have g: "getLatestTag E allTags = Some t"
    using assms(3) by (simp add: getLatestTag_def)
  have "run E baseImage versionRange configFile allTags =
               Inr (map (\<lambda>build. matrixEntry (DockerTag.name t) build baseImage)
                        (case builds loaded of None \<Rightarrow> [] | Some bs \<Rightarrow> bs))"
    using assms g by (simp add: run_def Let_def buildMatrix_single merge_keeps_builds)
  with s g show ?thesis by blast
qed

lemma not_semantic_rc_stable:
  "filterSemanticVersionTags
     [\<lparr>DockerTag.name = ''rc'', lastUpdated = u\<rparr>, \<lparr>DockerTag.name = ''stable'', lastUpdated = v\<rparr>] = []"
  "filterSemanticVersionTags
     [\<lparr>DockerTag.name = ''beta'', lastUpdated = u\<rparr>, \<lparr>DockerTag.name = ''stable'', lastUpdated = v\<rparr>] = []"
  by (simp_all add: filterSemanticVersionTags_def isSemanticVersionTag_def rx_test_def
      semverRegex_def rx_opt_def rx_plus_def rx_chr_def rx_d_def rx_w_dot_def)

lemma sort_rc_stable:
  assumes "getTime E ''2024-01-01'' = Some a" and "getTime E ''2024-06-01'' = Some b" and "a < b"
  shows "js_sort E (compareLastUpdated E) [rcTag, stableTag] = [stableTag, rcTag]"
proof -
  have "compareLastUpdated E stableTag rcTag < 0"
    using assms
    by (simp add: compareLastUpdated_def noLastUpdated_def rcTag_def stableTag_def)
  then have "countAndMakeRun (compareLastUpdated E) [rcTag, stableTag] = (2, [stableTag, rcTag])"
    by (simp add: countAndMakeRun_def)
  then show ?thesis by (simp add: js_sort_def sortShort_def)
qed

lemma sort_beta_stable:
  "js_sort E (compareLastUpdated E) [betaTag, stableTag] = [betaTag, stableTag]"
proof -
  have "compareLastUpdated E stableTag betaTag = 0"
    by (simp add: compareLastUpdated_def noLastUpdated_def betaTag_def)
  then have "countAndMakeRun (compareLastUpdated E) [betaTag, stableTag]
             = (2, [betaTag, stableTag])"
    by (simp add: countAndMakeRun_def)
  then show ?thesis by (simp add: js_sort_def sortShort_def)
qed

text \<open>
  C9, as the code has it. When the tag list is not empty, no tag classifies as a semantic
  version and the configuration loads, the run does not fail: whatever the strategy, the
  range, the cap and the version-range input, its matrix is one entry per build
  configuration, each for the name of one tag of the list, the tag that
  \<^verbatim>\<open>Array.prototype.sort\<close> puts first under the comparison function ``\<^verbatim>\<open>lastUpdated\<close>
  descending, a comparison with a missing time stamp a tie''. When every tag carries a time
  stamp that parses, that tag is the most recently updated one, the first such in the
  list; for the tags \<open>rc\<close> of 2024-01-01 and \<open>stable\<close> of 2024-06-01 it is \<open>stable\<close>. When
  all comparisons are ties it is the first tag of the list. This holds for every list of
  fewer than 64 tags, and for a longer one when the engine's sort does what ECMAScript asks
  of it.
\<close>

theorem fallback_selects_first_in_latest_order:
  "((length allTags < 64 \<or> conformingSort E) \<and> loadConfig configFile = Inr loaded
      \<and> allTags \<noteq> [] \<and> filterSemanticVersionTags allTags = [] \<longrightarrow>
      (\<exists>t ts. js_sort E (compareLastUpdated E) allTags = t # ts \<and> t \<in> set allTags
         \<and> run E baseImage versionRange configFile allTags =
             Inr (map (\<lambda>build. matrixEntry (DockerTag.name t) build baseImage)
                      (case builds loaded of None \<Rightarrow> [] | Some bs \<Rightarrow> bs))
         \<and> (list_all (\<lambda>u. timeOf E u = Some (tm u)) allTags \<longrightarrow>
              (\<exists>pre post. allTags = pre @ t # post
                 \<and> (\<forall>u\<in>set pre. tm u < tm t) \<and> (\<forall>u\<in>set post. tm u \<le> tm t)))
         \<and> (list_all (\<lambda>x. list_all (\<lambda>y. compareLastUpdated E x y = 0) allTags) allTags \<longrightarrow>
              t = hd allTags)))
   \<and> (loadConfig configFile = Inr loaded
        \<and> getTime E ''2024-01-01'' = Some a \<and> getTime E ''2024-06-01'' = Some b \<and> a < b \<longrightarrow>
        run E baseImage versionRange configFile [rcTag, stableTag] =
          Inr (map (\<lambda>build. matrixEntry ''stable'' build baseImage)
                   (case builds loaded of None \<Rightarrow> [] | Some bs \<Rightarrow> bs)))"
proof -
  have general: "\<exists>t ts. js_sort E (compareLastUpdated E) allTags = t # ts \<and> t \<in> set allTags
         \<and> run E baseImage versionRange configFile allTags =
             Inr (map (\<lambda>build. matrixEntry (DockerTag.name t) build baseImage)
                      (case builds loaded of None \<Rightarrow> [] | Some bs \<Rightarrow> bs))
         \<and> (list_all (\<lambda>u. timeOf E u = Some (tm u)) allTags \<longrightarrow>
              (\<exists>pre post. allTags = pre @ t # post
                 \<and> (\<forall>u\<in>set pre. tm u < tm t) \<and> (\<forall>u\<in>set post. tm u \<le> tm t)))
         \<and> (list_all (\<lambda>x. list_all (\<lambda>y. compareLastUpdated E x y = 0) allTags) allTags \<longrightarrow>
              t = hd allTags)"
    if c: "length allTags < 64 \<or> conformingSort E"
      and l: "loadConfig configFile = Inr loaded" and ne: "allTags \<noteq> []"
      and f: "filterSemanticVersionTags allTags = []"
  proof -
    from run_fallback [OF c l ne f, of baseImage versionRange]
    obtain t ts where s: "js_sort E (compareLastUpdated E) allTags = t # ts"
      and r: "run E baseImage versionRange configFile allTags =
             Inr (map (\<lambda>build. matrixEntry (DockerTag.name t) build baseImage)
                      (case builds loaded of None \<Rightarrow> [] | Some bs \<Rightarrow> bs))"
      by blast
    have m: "t \<in> set allTags"
      using set_js_sort [OF c, of "compareLastUpdated E"] s by auto
    have "\<exists>pre post. allTags = pre @ t # post
                 \<and> (\<forall>u\<in>set pre. tm u < tm t) \<and> (\<forall>u\<in>set post. tm u \<le> tm t)"
      if "list_all (\<lambda>u. timeOf E u = Some (tm u)) allTags"
    proof -
      have "\<forall>u\<in>set allTags. timeOf E u = Some (tm u)"
        using that by (simp add: list_all_iff)
      from latest_is_first_maximum [OF c this ne] s show ?thesis by auto
    qed
    moreover have "t = hd allTags"
      if "list_all (\<lambda>x. list_all (\<lambda>y. compareLastUpdated E x y = 0) allTags) allTags"
    proof -
      have "keyed (compareLastUpdated E) (\<lambda>u. 0) allTags"
        using that by (intro keyed_ties) (simp add: list_all_iff)
      from js_sort_keyed [OF c this] s have "allTags = t # ts"
        by (simp add: sort_key_constant)
      then show ?thesis by simp
    qed
    ultimately show ?thesis using s r m by blast
  qed
  have example: "run E baseImage versionRange configFile [rcTag, stableTag] =
          Inr (map (\<lambda>build. matrixEntry ''stable'' build baseImage)
                   (case builds loaded of None \<Rightarrow> [] | Some bs \<Rightarrow> bs))"
    if l: "loadConfig configFile = Inr loaded"
      and t: "getTime E ''2024-01-01'' = Some a" "getTime E ''2024-06-01'' = Some b" "a < b"
  proof -
    have f: "filterSemanticVersionTags [rcTag, stableTag] = []"
      by (simp add: rcTag_def stableTag_def not_semantic_rc_stable)
    have c: "length [rcTag, stableTag] < 64 \<or> conformingSort E" by simp
    from run_fallback [OF c l _ f, of baseImage versionRange] sort_rc_stable [OF t]
    show ?thesis by (simp add: stableTag_def)
  qed
  from general example show ?thesis by blast
qed

theorem fallback_selects_first_in_latest_order_witness:
  "(length [rcTag, stableTag] < 64 \<or> conformingSort exampleEnv)
   \<and> conformingSort exampleEnv
   \<and> loadConfig None = Inr getDefaultConfig \<and> [rcTag, stableTag] \<noteq> []
   \<and> filterSemanticVersionTags [rcTag, stableTag] = []
   \<and> list_all (\<lambda>u. timeOf exampleEnv u =
                      Some (if DockerTag.name u = ''rc'' then 1704067200000 else 1717200000000))
               [rcTag, stableTag]
   \<and> getTime exampleEnv ''2024-01-01'' = Some 1704067200000
   \<and> getTime exampleEnv ''2024-06-01'' = Some 1717200000000
   \<and> (1704067200000 :: int) < 1717200000000
   \<and> map version (case run exampleEnv ''node'' [] None [rcTag, stableTag] of
                     Inl e \<Rightarrow> [] | Inr matrix \<Rightarrow> matrix) = [''stable'']
   \<and> list_all (\<lambda>x. list_all (\<lambda>y. compareLastUpdated exampleEnv x y = 0) [betaTag, stableTag])
               [betaTag, stableTag]
   \<and> filterSemanticVersionTags [betaTag, stableTag] = []"
  using
    fallback_selects_first_in_latest_order [of "[rcTag, stableTag]" exampleEnv None
      getDefaultConfig "''node''" "[]"
      "\<lambda>u. if DockerTag.name u = ''rc'' then 1704067200000 else 1717200000000"
      1704067200000 1717200000000]
    fallback_selects_first_in_latest_order [of "[betaTag, stableTag]" exampleEnv None
      getDefaultConfig "''node''" "[]" "\<lambda>u. 0" 1704067200000 1717200000000]
    conformingSort_exampleEnv
  by (simp add: loadConfig_def rcTag_def stableTag_def betaTag_def not_semantic_rc_stable
      timeOf_def exampleEnv_def default_builds matrixEntry_def compareLastUpdated_def
      noLastUpdated_def)

text \<open>
  C9, as the specification has it, fails for a tag without a time stamp: of the tags
  \<open>beta\<close>, which has none, and \<open>stable\<close> of 2024-06-01, the fallback selects \<open>beta\<close>, the
  first of the list, though \<open>stable\<close> is the only tag with an update time.
\<close>

theorem fallback_with_missing_time_stamp:
  "filterSemanticVersionTags [betaTag, stableTag] = []
   \<and> timeOf exampleEnv betaTag = None
   \<and> timeOf exampleEnv stableTag = Some 1717200000000
   \<and> getLatestTag exampleEnv [betaTag, stableTag] = Some betaTag
   \<and> map version (case run exampleEnv ''node'' [] None [betaTag, stableTag] of
                     Inl e \<Rightarrow> [] | Inr matrix \<Rightarrow> matrix) = [''beta'']"
proof -
  have f: "filterSemanticVersionTags [betaTag, stableTag] = []"
    by (simp add: betaTag_def stableTag_def not_semantic_rc_stable)
  have s: "js_sort exampleEnv (compareLastUpdated exampleEnv) [betaTag, stableTag]
           = [betaTag, stableTag]"
    by (rule sort_beta_stable)
  have l: "loadConfig None = Inr getDefaultConfig"
    by (simp add: loadConfig_def)
  have c: "length [betaTag, stableTag] < 64 \<or> conformingSort exampleEnv" by simp
  from run_fallback [OF c l _ f, of "''node''" "[]"] s
  have "run exampleEnv ''node'' [] None [betaTag, stableTag] =
          Inr (map (\<lambda>build. matrixEntry ''beta'' build ''node'')
                   (case builds getDefaultConfig of None \<Rightarrow> [] | Some bs \<Rightarrow> bs))"
    by (simp add: betaTag_def)
  then have "map version (case run exampleEnv ''node'' [] None [betaTag, stableTag] of
                     Inl e \<Rightarrow> [] | Inr matrix \<Rightarrow> matrix) = [''beta'']"
    by (simp add: default_builds matrixEntry_def)
  moreover have "timeOf exampleEnv betaTag = None"
    by (simp add: timeOf_def betaTag_def)
  moreover have "timeOf exampleEnv stableTag = Some 1717200000000"
    by (simp add: timeOf_def stableTag_def exampleEnv_def)
  moreover have "getLatestTag exampleEnv [betaTag, stableTag] = Some betaTag"
    using s by (simp add: getLatestTag_def)
  ultimately show ?thesis using f by simp
qed

section \<open>Properties: tag templates in the matrix\<close>

lemma version_matrixEntry: "version (matrixEntry ver build baseImage) = ver"
  by (simp add: matrixEntry_def)

lemma set_buildMatrix:
  "e \<in> set (buildMatrix versions config baseImage) \<Longrightarrow>
   \<exists>ver\<in>set versions. \<exists>build. e = matrixEntry ver build baseImage"
  by (auto simp: buildMatrix_concat)

lemma filterVersions_names:
  assumes "length tgs < 64 \<or> conformingSort E"
    and "filterVersions E tgs strat r mv = Inr vs"
  shows "set vs \<subseteq> DockerTag.name ` set tgs"
proof -
  have cap: "set (applyMaxVersions mv xs) \<subseteq> set xs" for xs :: "DockerTag list"
    by (auto simp: applyMaxVersions_def split: option.splits dest: in_set_takeD)
  have latest: "set (getLatestVersions E tgs 1) \<subseteq> set tgs"
    using set_js_sort [OF assms(1), of "compareLastUpdated E"]
    by (auto simp: getLatestVersions_def dest: in_set_takeD)
  have sem: "set (filterBySemverRange E tgs x) \<subseteq> set tgs" for x
    by (auto simp: filterBySemverRange_def)
  from assms(2) obtain filtered where v: "vs = map DockerTag.name (applyMaxVersions mv filtered)"
    and f: "set filtered \<subseteq> set tgs"
    using latest sem
    by (auto simp: filterVersions_def split: if_splits option.splits sum.splits)
  from cap [of filtered] f show ?thesis by (auto simp: v)
qed

lemma run_versions:
  assumes c: "length allTags < 64 \<or> conformingSort E"
    and r: "run E baseImage versionRange configFile allTags = Inr matrix"
    and e: "e \<in> set matrix"
  shows "\<exists>t\<in>set allTags. \<exists>build. e = matrixEntry (DockerTag.name t) build baseImage"
proof -
  from r obtain loaded where l: "loadConfig configFile = Inr loaded"
    by (cases "loadConfig configFile") (simp_all add: run_def)
  define config where "config = (if versionRange \<noteq> []
                         then mergeConfigWithVersionRange loaded versionRange else loaded)"
  from r l have ne: "allTags \<noteq> []"
    by (auto simp: run_def Let_def split: if_splits)
  show ?thesis
  proof (cases "filterSemanticVersionTags allTags = []")
    case True
    from run_fallback [OF c l ne True, of baseImage versionRange]
    obtain t ts where s: "js_sort E (compareLastUpdated E) allTags = t # ts"
      and m: "run E baseImage versionRange configFile allTags =
               Inr (map (\<lambda>build. matrixEntry (DockerTag.name t) build baseImage)
                        (case builds loaded of None \<Rightarrow> [] | Some bs \<Rightarrow> bs))"
      by blast
    have "t \<in> set allTags"
      using set_js_sort [OF c, of "compareLastUpdated E"] s by auto
    moreover from m r e have "\<exists>build. e = matrixEntry (DockerTag.name t) build baseImage"
      by auto
    ultimately show ?thesis by blast
  next
    case False
    define semverTags where "semverTags = filterSemanticVersionTags allTags"
    have sub: "set semverTags \<subseteq> set allTags"
      by (auto simp: semverTags_def filterSemanticVersionTags_def)
    have "length semverTags \<le> length allTags"
      by (simp add: semverTags_def filterSemanticVersionTags_def)
    with c have c': "length semverTags < 64 \<or> conformingSort E" by auto
    from r l False ne obtain strat rng selected where
      f: "filterVersions E semverTags strat rng (maxVersions config) = Inr selected"
      and m: "matrix = buildMatrix selected config baseImage"
      by (auto simp: run_def Let_def config_def semverTags_def split: if_splits sum.splits)
    from set_buildMatrix e m obtain ver build where
      v: "ver \<in> set selected" and eq: "e = matrixEntry ver build baseImage"
      by blast
    from filterVersions_names [OF c' f] v sub obtain t where
      "t \<in> set allTags" "ver = DockerTag.name t" by auto
    with eq show ?thesis by blast
  qed
qed


lemma run_rc_stable:
  "run exampleEnv ''node'' [] None [rcTag, stableTag] =
     Inr [matrixEntry ''stable''
            \<lparr>BuildConfig.name = Some ''default'',
             BuildConfig.dockerfilePath = Some ''Dockerfile'',
             BuildConfig.contextPath = Some ''.'',
             BuildConfig.buildArgs = Some Map.empty,
             BuildConfig.tags = Some [''{version}'', ''latest'']\<rparr> ''node'']"
proof -
  have f: "filterSemanticVersionTags [rcTag, stableTag] = []"
    by (simp add: rcTag_def stableTag_def not_semantic_rc_stable)
  have l: "loadConfig None = Inr getDefaultConfig"
    by (simp add: loadConfig_def)
  have c: "length [rcTag, stableTag] < 64 \<or> conformingSort exampleEnv" by simp
  have s: "js_sort exampleEnv (compareLastUpdated exampleEnv) [rcTag, stableTag]
           = [stableTag, rcTag]"
    by (rule sort_rc_stable [of exampleEnv 1704067200000 1717200000000])
       (simp_all add: exampleEnv_def)
  from run_fallback [OF c l _ f, of "''node''" "[]"] s show ?thesis
    by (simp add: default_builds stableTag_def)
qed

text \<open>
  C5. Each tag template has the first occurrence of \<open>{version}\<close> replaced by the version
  and nothing else changed: a template that holds the placeholder twice keeps the second, a
  template without the placeholder is unchanged, and the templates \<open>{version}\<close> and \<open>latest\<close>
  with the version \<open>2.3.0\<close> give the tags \<open>2.3.0\<close> and \<open>latest\<close>. The version is the
  replacement text of \<^verbatim>\<open>String.prototype.replace\<close>, in which a dollar sign starts a
  replacement pattern, so the statement is for versions without a dollar sign. The versions
  of a run are names of tags of the registry, which are made of letters, digits,
  underscores, dots and hyphens: in the matrix of a run on tags whose names hold no dollar
  sign, every entry is for the name of one of the tags, and its tags are the templates of a
  build with the first \<open>{version}\<close> replaced by that name.
\<close>

theorem placeholder_first_occurrence:
  "(CHR ''$'' \<notin> set ver \<longrightarrow>
      tags (matrixEntry ver build baseImage) =
        map (\<lambda>t. case indexOf ''{version}'' t of
                    None \<Rightarrow> t
                  | Some i \<Rightarrow> take i t @ ver @ drop (i + length ''{version}'') t)
            (case BuildConfig.tags build of None \<Rightarrow> [''{version}''] | Some ts \<Rightarrow> ts))
   \<and> (indexOf ''{version}'' t = Some i \<longrightarrow>
        t = take i t @ ''{version}'' @ drop (i + length ''{version}'') t
        \<and> (\<forall>j<i. take (length ''{version}'') (drop j t) \<noteq> ''{version}''))
   \<and> (indexOf ''{version}'' t = None \<longrightarrow>
        (\<forall>j. take (length ''{version}'') (drop j t) \<noteq> ''{version}''))
   \<and> ((length allTags < 64 \<or> conformingSort E)
        \<and> (\<forall>u\<in>set allTags. CHR ''$'' \<notin> set (DockerTag.name u))
        \<and> run E baseImage versionRange configFile allTags = Inr matrix \<longrightarrow>
        (\<forall>e\<in>set matrix. \<exists>u\<in>set allTags. \<exists>b.
            e = matrixEntry (DockerTag.name u) b baseImage
            \<and> version e = DockerTag.name u
            \<and> tags e =
                map (\<lambda>t. case indexOf ''{version}'' t of
                            None \<Rightarrow> t
                          | Some i \<Rightarrow> take i t @ version e @ drop (i + length ''{version}'') t)
                    (case BuildConfig.tags b of None \<Rightarrow> [''{version}''] | Some ts \<Rightarrow> ts)))
   \<and> map tags (buildMatrix [''2.3.0''] getDefaultConfig baseImage) = [[''2.3.0'', ''latest'']]
   \<and> js_replace ''{version}'' ''2.3.0'' ''{version}-{version}'' = ''2.3.0-{version}''"
proof -
  have a: "tags (matrixEntry ver build baseImage) =
        map (\<lambda>t. case indexOf ''{version}'' t of
                    None \<Rightarrow> t
                  | Some i \<Rightarrow> take i t @ ver @ drop (i + length ''{version}'') t)
            (case BuildConfig.tags build of None \<Rightarrow> [''{version}''] | Some ts \<Rightarrow> ts)"
    if d: "CHR ''$'' \<notin> set ver" for ver build
  proof -
    have "js_replace ''{version}'' ver t =
            (case indexOf ''{version}'' t of
               None \<Rightarrow> t
             | Some i \<Rightarrow> take i t @ ver @ drop (i + length ''{version}'') t)" for t
      using js_replace_plain [OF d, of "''{version}''" t]
      by (cases "indexOf ''{version}'' t") simp_all
    then have "js_replace ''{version}'' ver =
            (\<lambda>t. case indexOf ''{version}'' t of
                    None \<Rightarrow> t
                  | Some i \<Rightarrow> take i t @ ver @ drop (i + length ''{version}'') t)"
      by (intro ext)
    then show ?thesis by (simp only: tags_matrixEntry)
  qed
  have b: "t = take i t @ ''{version}'' @ drop (i + length ''{version}'') t
        \<and> (\<forall>j<i. take (length ''{version}'') (drop j t) \<noteq> ''{version}'')"
    if i: "indexOf ''{version}'' t = Some i"
  proof -
    have "CHR ''$'' \<notin> set []" by simp
    from js_replace_plain [OF this, of "''{version}''" t] i show ?thesis by simp
  qed
  have c: "\<forall>j. take (length ''{version}'') (drop j t) \<noteq> ''{version}''"
    if "indexOf ''{version}'' t = None"
    using indexOf_None [OF that] by blast
  have r: "\<forall>e\<in>set matrix. \<exists>u\<in>set allTags. \<exists>b.
            e = matrixEntry (DockerTag.name u) b baseImage
            \<and> version e = DockerTag.name u
            \<and> tags e =
                map (\<lambda>t. case indexOf ''{version}'' t of
                            None \<Rightarrow> t
                          | Some i \<Rightarrow> take i t @ version e @ drop (i + length ''{version}'') t)
                    (case BuildConfig.tags b of None \<Rightarrow> [''{version}''] | Some ts \<Rightarrow> ts)"
    if s: "length allTags < 64 \<or> conformingSort E"
      and d: "\<forall>u\<in>set allTags. CHR ''$'' \<notin> set (DockerTag.name u)"
      and m: "run E baseImage versionRange configFile allTags = Inr matrix"
  proof
    fix e assume "e \<in> set matrix"
    from run_versions [OF s m this] obtain u b where u: "u \<in> set allTags"
      and e: "e = matrixEntry (DockerTag.name u) b baseImage"
      by blast
    from d u have "CHR ''$'' \<notin> set (DockerTag.name u)" by simp
    from a [OF this, of b] e
    have te: "tags e =
                map (\<lambda>t. case indexOf ''{version}'' t of
                            None \<Rightarrow> t
                          | Some i \<Rightarrow> take i t @ DockerTag.name u @ drop (i + length ''{version}'') t)
                    (case BuildConfig.tags b of None \<Rightarrow> [''{version}''] | Some ts \<Rightarrow> ts)"
      by simp
    have ve: "version e = DockerTag.name u"
      using e by (simp add: version_matrixEntry)
    have "e = matrixEntry (DockerTag.name u) b baseImage
            \<and> version e = DockerTag.name u
            \<and> tags e =
                map (\<lambda>t. case indexOf ''{version}'' t of
                            None \<Rightarrow> t
                          | Some i \<Rightarrow> take i t @ version e @ drop (i + length ''{version}'') t)
                    (case BuildConfig.tags b of None \<Rightarrow> [''{version}''] | Some ts \<Rightarrow> ts)"
      unfolding ve using e te by blast
    with u show "\<exists>u\<in>set allTags. \<exists>b.
            e = matrixEntry (DockerTag.name u) b baseImage
            \<and> version e = DockerTag.name u
            \<and> tags e =
                map (\<lambda>t. case indexOf ''{version}'' t of
                            None \<Rightarrow> t
                          | Some i \<Rightarrow> take i t @ version e @ drop (i + length ''{version}'') t)
                    (case BuildConfig.tags b of None \<Rightarrow> [''{version}''] | Some ts \<Rightarrow> ts)"
      by blast
  qed
  have e: "map tags (buildMatrix [''2.3.0''] getDefaultConfig baseImage) = [[''2.3.0'', ''latest'']]"
    by (simp add: buildMatrix_concat default_builds tags_matrixEntry replace_examples)
  from a [of ver build] b c r e replace_examples(3) show ?thesis by blast
qed

theorem placeholder_first_occurrence_witness:
  "CHR ''$'' \<notin> set ''2.3.0''
   \<and> indexOf ''{version}'' ''{version}-{version}'' = Some 0
   \<and> indexOf ''{version}'' ''latest'' = None
   \<and> tags (matrixEntry ''2.3.0''
              \<lparr>BuildConfig.name = None, BuildConfig.dockerfilePath = None,
               BuildConfig.contextPath = None, BuildConfig.buildArgs = None,
               BuildConfig.tags = Some [''{version}-{version}'', ''latest'']\<rparr> ''node'')
       = [''2.3.0-{version}'', ''latest'']
   \<and> (length [rcTag, stableTag] < 64 \<or> conformingSort exampleEnv)
   \<and> list_all (\<lambda>u. CHR ''$'' \<notin> set (DockerTag.name u)) [rcTag, stableTag]
   \<and> map tags (case run exampleEnv ''node'' [] None [rcTag, stableTag] of
                  Inl e \<Rightarrow> [] | Inr matrix \<Rightarrow> matrix) = [[''stable'', ''latest'']]"
proof -
  have t: "map tags (case run exampleEnv ''node'' [] None [rcTag, stableTag] of
                  Inl e \<Rightarrow> [] | Inr matrix \<Rightarrow> matrix) = [[''stable'', ''latest'']]"
    by (simp add: run_rc_stable tags_matrixEntry js_replace_def)
  have l: "list_all (\<lambda>u. CHR ''$'' \<notin> set (DockerTag.name u)) [rcTag, stableTag]"
    by (simp add: rcTag_def stableTag_def)
  from
    placeholder_first_occurrence [of "''2.3.0''"
      "\<lparr>BuildConfig.name = None, BuildConfig.dockerfilePath = None,
        BuildConfig.contextPath = None, BuildConfig.buildArgs = None,
        BuildConfig.tags = Some [''{version}-{version}'', ''latest'']\<rparr>"
      "''node''" "''{version}-{version}''" 0 "[rcTag, stableTag]" exampleEnv "[]" None
      "[matrixEntry ''stable''
            \<lparr>BuildConfig.name = Some ''default'',
             BuildConfig.dockerfilePath = Some ''Dockerfile'',
             BuildConfig.contextPath = Some ''.'',
             BuildConfig.buildArgs = Some Map.empty,
             BuildConfig.tags = Some [''{version}'', ''latest'']\<rparr> ''node'']"]
    placeholder_first_occurrence [of "''2.3.0''"
      "\<lparr>BuildConfig.name = None, BuildConfig.dockerfilePath = None,
        BuildConfig.contextPath = None, BuildConfig.buildArgs = None,
        BuildConfig.tags = Some [''{version}-{version}'', ''latest'']\<rparr>"
      "''node''" "''latest''" 0 "[rcTag, stableTag]" exampleEnv "[]" None
      "[matrixEntry ''stable''
            \<lparr>BuildConfig.name = Some ''default'',
             BuildConfig.dockerfilePath = Some ''Dockerfile'',
             BuildConfig.contextPath = Some ''.'',
             BuildConfig.buildArgs = Some Map.empty,
             BuildConfig.tags = Some [''{version}'', ''latest'']\<rparr> ''node'']"]
    t l
  show ?thesis
    by (simp add: tags_matrixEntry replace_examples)
qed

text \<open>Why the dollar sign is set apart: in the replacement text, \<open>$&\<close> stands for the
  matched text, here the placeholder itself.\<close>

lemma replace_reads_dollar_patterns:
  "js_replace ''{version}'' ''$&'' ''{version}'' = ''{version}''"
  by (rule replace_examples(4))

end
